theory Spec2Isabelle
  imports Complex_Main "HOL-Library.Multiset"
begin

section \<open>Map point decimation (MapDisplay component)\<close>

text \<open>
  JavaScript numbers are modelled as reals; the one way the code below can leave the
  finite numbers is \<open>Math.sqrt\<close> of a negative argument, which yields \<open>NaN\<close>. A number
  that may be \<open>NaN\<close> is a \<open>real option\<close> with \<open>None\<close> for \<open>NaN\<close>. An optional
  property (\<open>latitude?: number\<close>) is a \<open>real option\<close> with \<open>None\<close> for a value that is
  \<open>undefined\<close> or \<open>null\<close>.
\<close>

record FlightDataPoint =
  id' :: real
  timestamp :: string
  latitude :: "real option"
  longitude :: "real option"
  altitude :: "real option"
  speed :: "real option"
  rx_bt :: "real option"
  rssi :: "real option"
  rqly :: "real option"
  distance_from_start :: "real option"

text \<open>\<open>Math.sqrt\<close>: \<open>NaN\<close> on a negative argument.\<close>

definition Math_sqrt :: "real \<Rightarrow> real option" where
  "Math_sqrt x = (if x < 0 then None else Some (sqrt x))"

text \<open>\<open>Math.atan2(y, x)\<close>: the angle of the point \<open>(x, y)\<close> in \<open>(-pi, pi]\<close>, 0 at the origin.\<close>

definition Math_atan2 :: "real \<Rightarrow> real \<Rightarrow> real" where
  "Math_atan2 y x =
     (if 0 < x then arctan (y / x)
      else if x < 0 then (if 0 \<le> y then arctan (y / x) + pi else arctan (y / x) - pi)
      else if 0 < y then pi / 2
      else if y < 0 then - (pi / 2)
      else 0)"

definition haversineDistance :: "real \<Rightarrow> real \<Rightarrow> real \<Rightarrow> real \<Rightarrow> real option" where
  "haversineDistance lat1 lon1 lat2 lon2 =
     (let R = 6371000;
          phi1 = (lat1 * pi) / 180;
          phi2 = (lat2 * pi) / 180;
          deltaPhi = ((lat2 - lat1) * pi) / 180;
          deltaLambda = ((lon2 - lon1) * pi) / 180;
          a = sin (deltaPhi / 2) * sin (deltaPhi / 2) +
              cos phi1 * cos phi2 * sin (deltaLambda / 2) * sin (deltaLambda / 2)
      in case (Math_sqrt a, Math_sqrt (1 - a)) of
           (Some sa, Some sb) \<Rightarrow> Some (R * (2 * Math_atan2 sa sb))
         | _ \<Rightarrow> None)"

text \<open>The filter of \<open>validFlightData\<close>: both coordinates are neither undefined nor null.\<close>

definition validFlightData :: "FlightDataPoint list \<Rightarrow> FlightDataPoint list" where
  "validFlightData flightData =
     filter (\<lambda>point. latitude point \<noteq> None \<and> longitude point \<noteq> None) flightData"

text \<open>
  Truthiness of an optional number, as the guard \<open>currentPoint.latitude && ...\<close> tests it:
  undefined, null and 0 are falsy.
\<close>

fun truthy :: "real option \<Rightarrow> bool" where
  "truthy None = False"
| "truthy (Some x) = (x \<noteq> 0)"

text \<open>\<open>distance >= 10\<close> on a number that may be \<open>NaN\<close>: false on \<open>NaN\<close>.\<close>

fun geq10 :: "real option \<Rightarrow> bool" where
  "geq10 None = False"
| "geq10 (Some d) = (10 \<le> d)"

text \<open>The distance computed inside the guard, from \<open>lastPoint\<close> to \<open>currentPoint\<close>.\<close>

definition pointDistance :: "FlightDataPoint \<Rightarrow> FlightDataPoint \<Rightarrow> real option" where
  "pointDistance lastPoint currentPoint =
     (case (latitude lastPoint, longitude lastPoint, latitude currentPoint, longitude currentPoint) of
        (Some lat1, Some lon1, Some lat2, Some lon2) \<Rightarrow> haversineDistance lat1 lon1 lat2 lon2
      | _ \<Rightarrow> None)"

text \<open>The guard of the loop body: all four coordinates are truthy.\<close>

definition guard :: "FlightDataPoint \<Rightarrow> FlightDataPoint \<Rightarrow> bool" where
  "guard lastPoint currentPoint \<longleftrightarrow>
     truthy (latitude currentPoint) \<and> truthy (longitude currentPoint) \<and>
     truthy (latitude lastPoint) \<and> truthy (longitude lastPoint)"

text \<open>One iteration of the \<open>for\<close> loop on the state \<open>(filteredPoints, lastPoint)\<close>.\<close>

definition loopBody ::
  "FlightDataPoint list \<times> FlightDataPoint \<Rightarrow> FlightDataPoint \<Rightarrow> FlightDataPoint list \<times> FlightDataPoint" where
  "loopBody st currentPoint =
     (case st of (filteredPoints, lastPoint) \<Rightarrow>
        if guard lastPoint currentPoint then
          (if geq10 (pointDistance lastPoint currentPoint)
           then (filteredPoints @ [currentPoint], currentPoint)
           else (filteredPoints, lastPoint))
        else (filteredPoints, lastPoint))"

text \<open>The \<open>for\<close> loop over \<open>validFlightData[1..]\<close>, in order.\<close>

fun forLoop ::
  "FlightDataPoint list \<Rightarrow> FlightDataPoint list \<times> FlightDataPoint \<Rightarrow> FlightDataPoint list \<times> FlightDataPoint" where
  "forLoop [] st = st"
| "forLoop (currentPoint # rest) st = forLoop rest (loopBody st currentPoint)"

text \<open>\<open>intelligentPoints\<close>, as a function of the memoised \<open>validFlightData\<close>.\<close>

definition intelligentPoints :: "FlightDataPoint list \<Rightarrow> FlightDataPoint list" where
  "intelligentPoints vfd =
     (if length vfd < 2 then vfd
      else case forLoop (tl vfd) ([hd vfd], hd vfd) of (filteredPoints, lastPoint) \<Rightarrow>
        if id' (last vfd) \<noteq> id' lastPoint then filteredPoints @ [last vfd] else filteredPoints)"

text \<open>What the component renders when \<open>showAllPoints\<close> is off, from the raw flight data.\<close>

definition pointsToRender :: "bool \<Rightarrow> FlightDataPoint list \<Rightarrow> FlightDataPoint list" where
  "pointsToRender showAllPoints flightData =
     (if showAllPoints then validFlightData flightData
      else intelligentPoints (validFlightData flightData))"

text \<open>
  The invariant of the loop, for a relation \<open>D\<close> between a kept point and the next kept
  point: the reference point is the last kept point, and neighbouring kept points are in \<open>D\<close>.
\<close>

definition loopInv :: "(FlightDataPoint \<Rightarrow> FlightDataPoint \<Rightarrow> bool) \<Rightarrow> FlightDataPoint list \<times> FlightDataPoint \<Rightarrow> bool" where
  "loopInv D st \<longleftrightarrow> fst st \<noteq> [] \<and> last (fst st) = snd st \<and> successively D (fst st)"

text \<open>Two points are less than 10 metres apart, by the distance the loop computes.\<close>

definition within10 :: "FlightDataPoint \<Rightarrow> FlightDataPoint \<Rightarrow> bool" where
  "within10 p q = (case pointDistance p q of None \<Rightarrow> False | Some d \<Rightarrow> d < 10)"

text \<open>A point with the given id and coordinates and no other telemetry, for the examples.\<close>

definition gpsPoint :: "real \<Rightarrow> real option \<Rightarrow> real option \<Rightarrow> FlightDataPoint" where
  "gpsPoint i lat lon =
     \<lparr>id' = i, timestamp = [], latitude = lat, longitude = lon, altitude = None, speed = None,
      rx_bt = None, rssi = None, rqly = None, distance_from_start = None\<rparr>"


section \<open>Client-side sorting (Flights page)\<close>

subsection \<open>JavaScript values and the relational operators\<close>

text \<open>
  The values a sort column can hold. An object or an array is carried as the string that
  \<open>ToPrimitive\<close> yields for it (\<open>[object Object]\<close> for a plain object), which is all a
  relational operator observes of it. Numbers are the finite ones, as they come from JSON.
\<close>

datatype jsval =
    Undefined
  | Null
  | Boolean bool
  | Number real
  | String string
  | Object string

text \<open>A record \<open>T\<close>: its own properties; reading an absent property gives \<open>undefined\<close>.\<close>

type_synonym jsobject = "(string \<times> jsval) list"

definition getProp :: "jsobject \<Rightarrow> string \<Rightarrow> jsval" where
  "getProp obj key = (case map_of obj key of None \<Rightarrow> Undefined | Some v \<Rightarrow> v)"

text \<open>Strings compare by code units, a proper prefix before the longer string.\<close>

fun stringLess :: "string \<Rightarrow> string \<Rightarrow> bool" where
  "stringLess [] [] = False"
| "stringLess [] (y # ys) = True"
| "stringLess (x # xs) [] = False"
| "stringLess (x # xs) (y # ys) =
     (if (of_char x :: nat) < of_char y then True
      else if (of_char y :: nat) < of_char x then False
      else stringLess xs ys)"

definition toPrimitive :: "jsval \<Rightarrow> jsval" where
  "toPrimitive v = (case v of Object s \<Rightarrow> String s | _ \<Rightarrow> v)"

text \<open>
  \<open>ToNumber\<close> on a primitive, \<open>None\<close> for \<open>NaN\<close>. The conversion of a string to a number is
  a primitive of the language; it is the parameter \<open>stringToNumber\<close>.
\<close>

definition toNumber :: "(string \<Rightarrow> real option) \<Rightarrow> jsval \<Rightarrow> real option" where
  "toNumber stringToNumber v =
     (case v of
        Undefined \<Rightarrow> None
      | Null \<Rightarrow> Some 0
      | Boolean b \<Rightarrow> Some (if b then 1 else 0)
      | Number x \<Rightarrow> Some x
      | String s \<Rightarrow> stringToNumber s
      | Object s \<Rightarrow> stringToNumber s)"

text \<open>\<open>x < y\<close>: two strings compare as strings, anything else as numbers, false on \<open>NaN\<close>.\<close>

definition jsLess :: "(string \<Rightarrow> real option) \<Rightarrow> jsval \<Rightarrow> jsval \<Rightarrow> bool" where
  "jsLess stringToNumber x y =
     (case (toPrimitive x, toPrimitive y) of
        (String s, String t) \<Rightarrow> stringLess s t
      | (px, py) \<Rightarrow>
          (case (toNumber stringToNumber px, toNumber stringToNumber py) of
             (Some nx, Some ny) \<Rightarrow> nx < ny
           | _ \<Rightarrow> False))"

subsection \<open>Comparators and stable sort\<close>

datatype Order = asc | desc

definition descendingComparator ::
  "(string \<Rightarrow> real option) \<Rightarrow> jsobject \<Rightarrow> jsobject \<Rightarrow> string \<Rightarrow> real" where
  "descendingComparator stringToNumber a b orderBy =
     (if jsLess stringToNumber (getProp b orderBy) (getProp a orderBy) then - 1
      else if jsLess stringToNumber (getProp a orderBy) (getProp b orderBy) then 1
      else 0)"

definition getComparator ::
  "(string \<Rightarrow> real option) \<Rightarrow> Order \<Rightarrow> string \<Rightarrow> jsobject \<Rightarrow> jsobject \<Rightarrow> real" where
  "getComparator stringToNumber order orderBy =
     (if order = desc
      then (\<lambda>a b. descendingComparator stringToNumber a b orderBy)
      else (\<lambda>a b. - descendingComparator stringToNumber a b orderBy))"

text \<open>
  \<open>Array.prototype.sort\<close> is a primitive of the engine. The language fixes its result for a
  consistent comparison function, as the stable sorted permutation; insertion sort computes
  it, each element placed before the first element of the sorted rest that it does not
  follow.
\<close>

fun insertSorted :: "('a \<Rightarrow> 'a \<Rightarrow> real) \<Rightarrow> 'a \<Rightarrow> 'a list \<Rightarrow> 'a list" where
  "insertSorted cmp x [] = [x]"
| "insertSorted cmp x (y # ys) =
     (if cmp x y \<le> 0 then x # y # ys else y # insertSorted cmp x ys)"

definition arraySort :: "('a \<Rightarrow> 'a \<Rightarrow> real) \<Rightarrow> 'a list \<Rightarrow> 'a list" where
  "arraySort cmp xs = foldr (insertSorted cmp) xs []"

text \<open>The comparison function that \<open>stableSort\<close> hands to \<open>sort\<close>, on pairs \<open>[el, index]\<close>.\<close>

definition stabilizedComparator ::
  "('a \<Rightarrow> 'a \<Rightarrow> real) \<Rightarrow> 'a \<times> nat \<Rightarrow> 'a \<times> nat \<Rightarrow> real" where
  "stabilizedComparator comparator a b =
     (let order = comparator (fst a) (fst b)
      in if order \<noteq> 0 then order else real (snd a) - real (snd b))"

text \<open>\<open>stabilizedThis\<close> after the call of \<open>sort\<close>.\<close>

definition stabilizedThis :: "'a list \<Rightarrow> ('a \<Rightarrow> 'a \<Rightarrow> real) \<Rightarrow> ('a \<times> nat) list" where
  "stabilizedThis array comparator =
     arraySort (stabilizedComparator comparator) (zip array [0 ..< length array])"

definition stableSort :: "'a list \<Rightarrow> ('a \<Rightarrow> 'a \<Rightarrow> real) \<Rightarrow> 'a list" where
  "stableSort array comparator = map fst (stabilizedThis array comparator)"

text \<open>
  A consistent comparison function for a set of values, in the words of the language
  definition: reflexive and symmetric equality, and transitive equality, less and greater.
\<close>

definition consistentComparator :: "('a \<Rightarrow> 'a \<Rightarrow> real) \<Rightarrow> 'a set \<Rightarrow> bool" where
  "consistentComparator cmp S \<longleftrightarrow>
     (\<forall>a\<in>S. cmp a a = 0) \<and>
     (\<forall>a\<in>S. \<forall>b\<in>S. cmp a b = 0 \<longrightarrow> cmp b a = 0) \<and>
     (\<forall>a\<in>S. \<forall>b\<in>S. \<forall>c\<in>S. cmp a b = 0 \<and> cmp b c = 0 \<longrightarrow> cmp a c = 0) \<and>
     (\<forall>a\<in>S. \<forall>b\<in>S. \<forall>c\<in>S. cmp a b < 0 \<and> cmp b c < 0 \<longrightarrow> cmp a c < 0) \<and>
     (\<forall>a\<in>S. \<forall>b\<in>S. \<forall>c\<in>S. cmp a b > 0 \<and> cmp b c > 0 \<longrightarrow> cmp a c > 0)"

subsection \<open>Flights and their enrichment\<close>

text \<open>
  The interfaces of the page. A property \<open>p?: T\<close> is a \<open>T option\<close>. \<open>pilot\<close> and \<open>drone\<close> are
  options as well, since the enrichment reads them with \<open>?.\<close>. An element of \<open>flight_data\<close>
  has the one property \<open>timestamp\<close> and is that string.
\<close>

record Pilot =
  Pilot_id :: real
  Pilot_name :: string

record Drone =
  Drone_id :: real
  Drone_name :: string

record FlightLocation =
  FlightLocation_id :: real
  FlightLocation_name :: string
  FlightLocation_latitude :: real
  FlightLocation_longitude :: real

record Flight =
  Flight_id :: real
  pilot_id :: real
  drone_id :: real
  flight_date :: string
  notes' :: "string option"
  csv_log_path :: "string option"
  flight_location :: "FlightLocation option"
  pilot :: "Pilot option"
  drone :: "Drone option"
  is_valid :: bool
  invalidation_notes :: "string option"
  duration :: "real option"
  flight_data :: "string list"

text \<open>\<open>s || d\<close> on an optional string: the empty string is falsy.\<close>

definition orString :: "string option \<Rightarrow> string \<Rightarrow> string" where
  "orString v d = (case v of None \<Rightarrow> d | Some s \<Rightarrow> if s = [] then d else s)"

text \<open>\<open>n || 0\<close> on an optional number: undefined and 0 are falsy.\<close>

definition orZero :: "real option \<Rightarrow> real" where
  "orZero v = (case v of None \<Rightarrow> 0 | Some x \<Rightarrow> if x = 0 then 0 else x)"

definition optString :: "string option \<Rightarrow> jsval" where
  "optString v = (case v of None \<Rightarrow> Undefined | Some s \<Rightarrow> String s)"

definition optObject :: "'a option \<Rightarrow> jsval" where
  "optObject v = (case v of None \<Rightarrow> Undefined | Some _ \<Rightarrow> Object ''[object Object]'')"

text \<open>An array of \<open>n\<close> plain objects as a primitive: their strings joined by commas.\<close>

fun arrayOfObjects :: "nat \<Rightarrow> string" where
  "arrayOfObjects 0 = []"
| "arrayOfObjects (Suc 0) = ''[object Object]''"
| "arrayOfObjects (Suc (Suc n)) = ''[object Object],'' @ arrayOfObjects (Suc n)"

text \<open>
  The object literal of the enrichment: the five computed properties override those of
  the spread \<open>...f\<close>, so they come first in the property list.
\<close>

definition sortable :: "Flight \<Rightarrow> jsobject" where
  "sortable f =
     [(''pilot_name'', String (orString (map_option Pilot_name (pilot f)) ''N/A'')),
      (''drone_name'', String (orString (map_option Drone_name (drone f)) ''N/A'')),
      (''location_name'', String (orString (map_option FlightLocation_name (flight_location f)) ''ZZZ'')),
      (''duration'', Number (orZero (duration f))),
      (''flight_date'', String (if length (flight_data f) > 0 then hd (flight_data f) else flight_date f)),
      (''id'', Number (Flight_id f)),
      (''pilot_id'', Number (pilot_id f)),
      (''drone_id'', Number (drone_id f)),
      (''notes'', optString (notes' f)),
      (''csv_log_path'', optString (csv_log_path f)),
      (''flight_location'', optObject (flight_location f)),
      (''pilot'', optObject (pilot f)),
      (''drone'', optObject (drone f)),
      (''is_valid'', Boolean (is_valid f)),
      (''invalidation_notes'', optString (invalidation_notes f)),
      (''flight_data'', Object (arrayOfObjects (length (flight_data f))))]"

definition sortedFlights ::
  "(string \<Rightarrow> real option) \<Rightarrow> Flight list \<Rightarrow> Order \<Rightarrow> string \<Rightarrow> jsobject list" where
  "sortedFlights stringToNumber flights order orderBy =
     stableSort (map sortable flights) (getComparator stringToNumber order orderBy)"

text \<open>
  The columns of the table whose header is a sort label; \<open>handleRequestSort\<close> is called with
  these property names only.
\<close>

definition sortableColumns :: "string list" where
  "sortableColumns = [''flight_date'', ''pilot_name'', ''drone_name'', ''duration'', ''location_name'']"

text \<open>A location and a flight for the examples: no notes, no log, no duration.\<close>

definition exampleLocation :: "string \<Rightarrow> FlightLocation" where
  "exampleLocation n =
     \<lparr>FlightLocation_id = 1, FlightLocation_name = n, FlightLocation_latitude = 50,
      FlightLocation_longitude = 8\<rparr>"

definition exampleFlight :: "real \<Rightarrow> FlightLocation option \<Rightarrow> Flight" where
  "exampleFlight i loc =
     \<lparr>Flight_id = i, pilot_id = 1, drone_id = 1, flight_date = ''2024-05-01'', notes' = None,
      csv_log_path = None, flight_location = loc,
      pilot = Some \<lparr>Pilot_id = 1, Pilot_name = ''Ann''\<rparr>,
      drone = Some \<lparr>Drone_id = 1, Drone_name = ''Quad''\<rparr>,
      is_valid = True, invalidation_notes = None, duration = None, flight_data = []\<rparr>"

section \<open>The table view-model of the Flights page\<close>

text \<open>
  The state of the component that the handlers write: the filter object, the sort state and
  the page state. A handler is a function from the state of one render to that of the
  next. \<open>rowsPerPage\<close> is what \<open>parseInt\<close> returned, \<open>None\<close> for \<open>NaN\<close>.
\<close>

record FlightsState =
  filters :: "string \<rightharpoonup> string"
  order :: Order
  orderBy :: string
  page :: real
  rowsPerPage :: "real option"

definition isWhiteSpace :: "char \<Rightarrow> bool" where
  "isWhiteSpace c \<longleftrightarrow> (of_char c :: nat) \<in> {9, 10, 11, 12, 13, 32}"

definition isDigit :: "char \<Rightarrow> bool" where
  "isDigit c \<longleftrightarrow> 48 \<le> (of_char c :: nat) \<and> (of_char c :: nat) \<le> 57"

definition digitsValue :: "string \<Rightarrow> real" where
  "digitsValue ds = foldl (\<lambda>acc c. acc * 10 + real (of_char c - 48)) 0 ds"

text \<open>\<open>parseInt(s, 10)\<close>: leading white space, a sign, the longest prefix of digits.\<close>

definition parseInt10 :: "string \<Rightarrow> real option" where
  "parseInt10 s =
     (let t = dropWhile isWhiteSpace s;
          neg = (t \<noteq> [] \<and> hd t = CHR ''-'');
          u = (if t \<noteq> [] \<and> (hd t = CHR ''-'' \<or> hd t = CHR ''+'') then tl t else t);
          ds = takeWhile isDigit u
      in if ds = [] then None
         else Some (if neg then - digitsValue ds else digitsValue ds))"

text \<open>The state the component starts in, from the two URL parameters.\<close>

definition initialState :: "string option \<Rightarrow> string option \<Rightarrow> FlightsState" where
  "initialState locationIdFromUrl droneIdFromUrl =
     \<lparr>filters = [''droneId'' \<mapsto> orString droneIdFromUrl [],
                 ''locationId'' \<mapsto> orString locationIdFromUrl [],
                 ''startDate'' \<mapsto> [], ''endDate'' \<mapsto> []],
      order = desc, orderBy = ''flight_date'', page = 0, rowsPerPage = Some 25\<rparr>"

definition handleRequestSort :: "FlightsState \<Rightarrow> string \<Rightarrow> FlightsState" where
  "handleRequestSort s property =
     (let isAsc = (orderBy s = property \<and> order s = asc)
      in s\<lparr>order := (if isAsc then desc else asc), orderBy := property\<rparr>)"

definition handleFilterInputChange :: "FlightsState \<Rightarrow> string \<Rightarrow> string \<Rightarrow> FlightsState" where
  "handleFilterInputChange s name value = s\<lparr>filters := (filters s)(name \<mapsto> value)\<rparr>"

definition handleFilterSelectChange :: "FlightsState \<Rightarrow> string \<Rightarrow> string \<Rightarrow> FlightsState" where
  "handleFilterSelectChange s name value = s\<lparr>filters := (filters s)(name \<mapsto> value)\<rparr>"

definition handleChangePage :: "FlightsState \<Rightarrow> real \<Rightarrow> FlightsState" where
  "handleChangePage s newPage = s\<lparr>page := newPage\<rparr>"

definition handleChangeRowsPerPage :: "FlightsState \<Rightarrow> string \<Rightarrow> FlightsState" where
  "handleChangeRowsPerPage s value = s\<lparr>rowsPerPage := parseInt10 value, page := 0\<rparr>"

text \<open>
  The pagination arguments of the request that \<open>fetchFlights\<close> issues from a state:
  \<open>skip = page * rowsPerPage\<close> and \<open>limit = rowsPerPage\<close>.
\<close>

definition fetchFlights_skip :: "FlightsState \<Rightarrow> real option" where
  "fetchFlights_skip s = map_option (\<lambda>r. page s * r) (rowsPerPage s)"

definition fetchFlights_limit :: "FlightsState \<Rightarrow> real option" where
  "fetchFlights_limit s = rowsPerPage s"

section \<open>Properties of the decimation\<close>

subsection \<open>The loop\<close>

lemma forLoop_append: "forLoop (xs @ ys) st = forLoop ys (forLoop xs st)"
  by (induction xs arbitrary: st) simp_all

lemma loopBody_cases:
  "loopBody (fp, lp) cur =
     (if guard lp cur \<and> geq10 (pointDistance lp cur) then (fp @ [cur], cur) else (fp, lp))"
  by (simp add: loopBody_def)

lemma loopBody_inv:
  assumes "loopInv (\<lambda>p q. guard p q \<and> geq10 (pointDistance p q)) st"
  shows "loopInv (\<lambda>p q. guard p q \<and> geq10 (pointDistance p q)) (loopBody st cur)"
  using assms by (cases st) (auto simp: loopInv_def loopBody_cases successively_append_iff)

lemma forLoop_inv:
  assumes "loopInv (\<lambda>p q. guard p q \<and> geq10 (pointDistance p q)) st"
  shows "loopInv (\<lambda>p q. guard p q \<and> geq10 (pointDistance p q)) (forLoop xs st)"
  using assms by (induction xs arbitrary: st) (simp_all add: loopBody_inv)

lemma loopBody_extends:
  "\<exists>ks. fst (loopBody st cur) = fst st @ ks \<and> set ks \<subseteq> {cur}"
  by (cases st) (simp add: loopBody_cases)

lemma forLoop_extends:
  "\<exists>ks. fst (forLoop xs st) = fst st @ ks \<and> set ks \<subseteq> set xs"
proof (induction xs arbitrary: st)
  case Nil
  then show ?case by simp
next
  case (Cons x xs)
  obtain k1 where k1: "fst (loopBody st x) = fst st @ k1" "set k1 \<subseteq> {x}"
    using loopBody_extends by blast
  obtain k2 where k2: "fst (forLoop xs (loopBody st x)) = fst (loopBody st x) @ k2" "set k2 \<subseteq> set xs"
    using Cons.IH by blast
  have "fst (forLoop (x # xs) st) = fst st @ (k1 @ k2)" using k1 k2 by simp
  moreover have "set (k1 @ k2) \<subseteq> set (x # xs)" using k1 k2 by auto
  ultimately show ?case by blast
qed

lemma forLoop_start:
  assumes "vfd \<noteq> []"
  shows "\<exists>ks. fst (forLoop (tl vfd) ([hd vfd], hd vfd)) = hd vfd # ks \<and> set ks \<subseteq> set (tl vfd)
     \<and> snd (forLoop (tl vfd) ([hd vfd], hd vfd)) = last (hd vfd # ks)
     \<and> successively (\<lambda>p q. guard p q \<and> geq10 (pointDistance p q)) (hd vfd # ks)"
proof -
  let ?D = "\<lambda>p q. guard p q \<and> geq10 (pointDistance p q)"
  let ?st = "forLoop (tl vfd) ([hd vfd], hd vfd)"
  have "loopInv ?D ([hd vfd], hd vfd)" by (simp add: loopInv_def)
  then have inv: "loopInv ?D ?st" by (rule forLoop_inv)
  obtain ks where ks: "fst ?st = [hd vfd] @ ks" "set ks \<subseteq> set (tl vfd)"
    using forLoop_extends [of "tl vfd" "([hd vfd], hd vfd)"] by auto
  show ?thesis using inv ks unfolding loopInv_def by (intro exI [of _ ks]) auto
qed

lemma intelligentPoints_shape:
  assumes "2 \<le> length vfd"
  shows "\<exists>ks. set ks \<subseteq> set (tl vfd)
     \<and> successively (\<lambda>p q. guard p q \<and> geq10 (pointDistance p q)) (hd vfd # ks)
     \<and> intelligentPoints vfd =
         (if id' (last vfd) \<noteq> id' (last (hd vfd # ks)) then (hd vfd # ks) @ [last vfd] else hd vfd # ks)"
proof -
  from assms have ne: "vfd \<noteq> []" by auto
  obtain ks where ks: "fst (forLoop (tl vfd) ([hd vfd], hd vfd)) = hd vfd # ks" "set ks \<subseteq> set (tl vfd)"
     "snd (forLoop (tl vfd) ([hd vfd], hd vfd)) = last (hd vfd # ks)"
     "successively (\<lambda>p q. guard p q \<and> geq10 (pointDistance p q)) (hd vfd # ks)"
    using forLoop_start [OF ne] by blast
  obtain fp lp where st: "forLoop (tl vfd) ([hd vfd], hd vfd) = (fp, lp)"
    by (cases "forLoop (tl vfd) ([hd vfd], hd vfd)")
  have fp: "fp = hd vfd # ks" and lp: "lp = last (hd vfd # ks)" using ks(1,3) st by simp_all
  have "intelligentPoints vfd = (if id' (last vfd) \<noteq> id' lp then fp @ [last vfd] else fp)"
    using assms st by (simp add: intelligentPoints_def)
  then have "intelligentPoints vfd =
         (if id' (last vfd) \<noteq> id' (last (hd vfd # ks)) then (hd vfd # ks) @ [last vfd] else hd vfd # ks)"
    unfolding fp lp .
  with ks show ?thesis by blast
qed

lemma forLoop_keeps_nothing:
  assumes "\<forall>x\<in>set xs. \<not> geq10 (pointDistance lp x)"
  shows "forLoop xs (fp, lp) = (fp, lp)"
  using assms by (induction xs) (simp_all add: loopBody_cases)

lemma within10_not_geq10: "within10 p q \<Longrightarrow> \<not> geq10 (pointDistance p q)"
  by (cases "pointDistance p q") (simp_all add: within10_def)

lemma successively_guard_truthy:
  "successively (\<lambda>p q. guard p q \<and> geq10 (pointDistance p q)) (x # ks) \<Longrightarrow>
   \<forall>q\<in>set ks. truthy (latitude q) \<and> truthy (longitude q)"
proof (induction ks arbitrary: x)
  case Nil
  then show ?case by simp
next
  case (Cons k ks)
  from Cons.prems have g: "guard x k"
    and s: "successively (\<lambda>p q. guard p q \<and> geq10 (pointDistance p q)) (k # ks)" by simp_all
  from s have "\<forall>q\<in>set ks. truthy (latitude q) \<and> truthy (longitude q)" by (rule Cons.IH)
  moreover from g have "truthy (latitude k) \<and> truthy (longitude k)" by (simp add: guard_def)
  ultimately show ?case by simp
qed

subsection \<open>Distances along a meridian\<close>

text \<open>
  Two points of one meridian, at most 180 degrees of latitude apart, are at the distance
  of the arc between them: the radius times the difference of latitude in radians. The
  examples below are tracks along a meridian, so that their distances are known exactly.
\<close>

lemma atan2_abs_sin_cos:
  assumes "\<bar>t\<bar> \<le> pi / 2"
  shows "Math_atan2 \<bar>sin t\<bar> (cos t) = \<bar>t\<bar>"
proof (cases "\<bar>t\<bar> = pi / 2")
  case True
  then have "t = pi / 2 \<or> t = - (pi / 2)" by linarith
  then have "cos t = 0 \<and> \<bar>sin t\<bar> = 1"
  proof
    assume h: "t = pi / 2" show ?thesis unfolding h by simp
  next
    assume h: "t = - (pi / 2)" show ?thesis unfolding h by simp
  qed
  then have "cos t = 0" "\<bar>sin t\<bar> = 1" by simp_all
  then show ?thesis using True by (simp add: Math_atan2_def)
next
  case False
  with assms have lt: "- (pi / 2) < t" "t < pi / 2" by linarith+
  then have c: "0 < cos t" by (rule cos_gt_zero_pi)
  have "\<bar>sin t\<bar> / cos t = tan \<bar>t\<bar>"
  proof (cases "0 \<le> t")
    case True
    then have "0 \<le> sin t" using lt by (intro sin_ge_zero) (auto intro: order_trans)
    then show ?thesis using True by (simp add: tan_def)
  next
    case False
    then have "sin t \<le> 0" using lt sin_ge_zero [of "- t"] by auto
    then show ?thesis using False by (simp add: tan_def)
  qed
  moreover have "arctan (tan \<bar>t\<bar>) = \<bar>t\<bar>" using lt by (intro arctan_tan) auto
  ultimately show ?thesis using c by (simp add: Math_atan2_def)
qed

lemma haversine_meridian:
  assumes "\<bar>lat2 - lat1\<bar> \<le> 180"
  shows "haversineDistance lat1 lon lat2 lon = Some (6371000 * (\<bar>lat2 - lat1\<bar> * pi / 180))"
proof -
  define t where "t = ((lat2 - lat1) * pi) / 180 / 2"
  have t: "\<bar>t\<bar> \<le> pi / 2"
  proof -
    have "\<bar>t\<bar> = \<bar>lat2 - lat1\<bar> * pi / 360" by (simp add: t_def abs_mult)
    also have "\<dots> \<le> 180 * pi / 360" using assms by (intro divide_right_mono mult_right_mono) auto
    finally show ?thesis by simp
  qed
  have c: "0 \<le> cos t" using t by (intro cos_ge_zero) auto
  have s1: "sqrt (sin t * sin t) = \<bar>sin t\<bar>" by simp
  have "1 - sin t * sin t = cos t * cos t"
    using sin_cos_squared_add [of t] by (simp add: power2_eq_square algebra_simps)
  then have s2: "sqrt (1 - sin t * sin t) = cos t" "\<not> 1 - sin t * sin t < 0" using c by auto
  have "2 * \<bar>t\<bar> = \<bar>lat2 - lat1\<bar> * pi / 180" by (simp add: t_def abs_mult)
  then show ?thesis
    unfolding haversineDistance_def Let_def Math_sqrt_def t_def [symmetric]
    using s1 s2 atan2_abs_sin_cos [OF t] by simp
qed

lemma gpsPoint_sel [simp]:
  "id' (gpsPoint i lat lon) = i" "latitude (gpsPoint i lat lon) = lat"
  "longitude (gpsPoint i lat lon) = lon"
  by (simp_all add: gpsPoint_def)

lemma gpsPoint_eq_iff [simp]:
  "gpsPoint i lat lon = gpsPoint j lat' lon' \<longleftrightarrow> i = j \<and> lat = lat' \<and> lon = lon'"
  by (auto simp: gpsPoint_def)

lemma pointDistance_meridian:
  assumes "\<bar>b - a\<bar> \<le> 180"
  shows "pointDistance (gpsPoint i (Some a) (Some l)) (gpsPoint j (Some b) (Some l)) =
    Some (6371000 * (\<bar>b - a\<bar> * pi / 180))"
  using haversine_meridian [OF assms] by (simp add: pointDistance_def)

lemma meridian_far:
  assumes "1 / 1000 \<le> \<bar>b - a\<bar>" "\<bar>b - a\<bar> \<le> 180"
  shows "geq10 (pointDistance (gpsPoint i (Some a) (Some l)) (gpsPoint j (Some b) (Some l)))"
proof -
  have "10 \<le> 6371000 * ((1 / 1000) * 2 / 180 :: real)" by simp
  also have "\<dots> \<le> 6371000 * (\<bar>b - a\<bar> * pi / 180)"
    using assms(1) pi_ge_two by (intro mult_left_mono divide_right_mono mult_mono) auto
  finally show ?thesis by (simp add: pointDistance_meridian [OF assms(2)])
qed

lemma meridian_near:
  assumes "\<bar>b - a\<bar> \<le> 1 / 1000000"
  shows "\<exists>d. pointDistance (gpsPoint i (Some a) (Some l)) (gpsPoint j (Some b) (Some l)) = Some d \<and> d < 1"
proof -
  have le: "\<bar>b - a\<bar> \<le> 180" using assms by simp
  have "6371000 * (\<bar>b - a\<bar> * pi / 180) \<le> 6371000 * ((1 / 1000000) * 4 / 180)"
    using assms pi_less_4 by (intro mult_left_mono divide_right_mono mult_mono) auto
  also have "\<dots> < (1 :: real)" by simp
  finally have "6371000 * (\<bar>b - a\<bar> * pi / 180) < 1" .
  then show ?thesis unfolding pointDistance_meridian [OF le] by blast
qed

lemma geq10_meridian_far [simp]:
  "1 / 1000 \<le> \<bar>b - a\<bar> \<Longrightarrow> \<bar>b - a\<bar> \<le> 180 \<Longrightarrow>
   geq10 (pointDistance (gpsPoint i (Some a) (Some l)) (gpsPoint j (Some b) (Some l))) = True"
  by (simp add: meridian_far)

lemma geq10_meridian_near [simp]:
  "\<bar>b - a\<bar> \<le> 1 / 1000000 \<Longrightarrow>
   geq10 (pointDistance (gpsPoint i (Some a) (Some l)) (gpsPoint j (Some b) (Some l))) = False"
  using meridian_near [of b a i l j] by auto

lemma within10_meridian_near [simp]:
  "\<bar>b - a\<bar> \<le> 1 / 1000000 \<Longrightarrow>
   within10 (gpsPoint i (Some a) (Some l)) (gpsPoint j (Some b) (Some l)) = True"
  using meridian_near [of b a i l j] by (auto simp: within10_def)

subsection \<open>The claims about the decimation\<close>

text \<open>
  C2, at inputs where it fails. On the prime meridian (longitude 0) a point 111 m from
  the reference point is not kept, and a track of four such points, each 111 m from the
  one before, is reduced to its first and last point. The same happens to a track along
  the meridian of 8 degrees that starts on the equator (latitude 0): the reference point
  never advances, so no point of the walk is kept.
\<close>

theorem far_point_with_zero_coordinate_dropped:
  "geq10 (pointDistance (gpsPoint 1 (Some 51) (Some 0)) (gpsPoint 2 (Some 51.001) (Some 0))) \<and>
   loopBody ([gpsPoint 1 (Some 51) (Some 0)], gpsPoint 1 (Some 51) (Some 0))
      (gpsPoint 2 (Some 51.001) (Some 0)) =
     ([gpsPoint 1 (Some 51) (Some 0)], gpsPoint 1 (Some 51) (Some 0)) \<and>
   intelligentPoints (validFlightData [gpsPoint 1 (Some 51) (Some 0), gpsPoint 2 (Some 51.001) (Some 0),
        gpsPoint 3 (Some 51.002) (Some 0), gpsPoint 4 (Some 51.003) (Some 0)]) =
     [gpsPoint 1 (Some 51) (Some 0), gpsPoint 4 (Some 51.003) (Some 0)] \<and>
   geq10 (pointDistance (gpsPoint 1 (Some 0) (Some 8)) (gpsPoint 2 (Some 0.001) (Some 8))) \<and>
   geq10 (pointDistance (gpsPoint 2 (Some 0.001) (Some 8)) (gpsPoint 3 (Some 0.002) (Some 8))) \<and>
   intelligentPoints (validFlightData [gpsPoint 1 (Some 0) (Some 8), gpsPoint 2 (Some 0.001) (Some 8),
        gpsPoint 3 (Some 0.002) (Some 8), gpsPoint 4 (Some 0.003) (Some 8)]) =
     [gpsPoint 1 (Some 0) (Some 8), gpsPoint 4 (Some 0.003) (Some 8)]"
proof -
  have v1: "validFlightData [gpsPoint 1 (Some 51) (Some 0), gpsPoint 2 (Some 51.001) (Some 0),
        gpsPoint 3 (Some 51.002) (Some 0), gpsPoint 4 (Some 51.003) (Some 0)] =
      [gpsPoint 1 (Some 51) (Some 0), gpsPoint 2 (Some 51.001) (Some 0),
        gpsPoint 3 (Some 51.002) (Some 0), gpsPoint 4 (Some 51.003) (Some 0)]"
    by (simp add: validFlightData_def del: not_None_eq)
  have v2: "validFlightData [gpsPoint 1 (Some 0) (Some 8), gpsPoint 2 (Some 0.001) (Some 8),
        gpsPoint 3 (Some 0.002) (Some 8), gpsPoint 4 (Some 0.003) (Some 8)] =
      [gpsPoint 1 (Some 0) (Some 8), gpsPoint 2 (Some 0.001) (Some 8),
        gpsPoint 3 (Some 0.002) (Some 8), gpsPoint 4 (Some 0.003) (Some 8)]"
    by (simp add: validFlightData_def del: not_None_eq)
  show ?thesis unfolding v1 v2 by (simp add: intelligentPoints_def loopBody_cases guard_def)
qed

text \<open>
  C3. When the points have unique identifiers and at least one point is valid, the
  decimated output starts with the first valid point and ends with the last valid point.
\<close>

theorem first_and_last_kept:
  assumes "distinct (map id' flightData)" and "validFlightData flightData \<noteq> []"
  shows "intelligentPoints (validFlightData flightData) \<noteq> []
    \<and> hd (intelligentPoints (validFlightData flightData)) = hd (validFlightData flightData)
    \<and> last (intelligentPoints (validFlightData flightData)) = last (validFlightData flightData)"
proof (cases "length (validFlightData flightData) < 2")
  case True
  then show ?thesis using assms(2) by (simp add: intelligentPoints_def)
next
  case False
  define vfd where "vfd = validFlightData flightData"
  have len: "2 \<le> length vfd" using False by (simp add: vfd_def)
  then have ne: "vfd \<noteq> []" by auto
  have dist: "distinct (map id' vfd)"
    unfolding vfd_def validFlightData_def using assms(1) by (rule distinct_map_filter)
  then have inj: "inj_on id' (set vfd)" by (simp add: distinct_map)
  obtain ks where ks: "set ks \<subseteq> set (tl vfd)"
    "intelligentPoints vfd =
       (if id' (last vfd) \<noteq> id' (last (hd vfd # ks)) then (hd vfd # ks) @ [last vfd] else hd vfd # ks)"
    using intelligentPoints_shape [OF len] by blast
  have "last (hd vfd # ks) \<in> set (hd vfd # ks)" by (rule last_in_set) simp
  moreover have "set (hd vfd # ks) \<subseteq> set vfd"
    using ks(1) ne by (auto dest: list.set_sel(2) [OF ne])
  ultimately have mem: "last (hd vfd # ks) \<in> set vfd" by blast
  have lmem: "last vfd \<in> set vfd" using ne by simp
  have "id' (last vfd) = id' (last (hd vfd # ks)) \<Longrightarrow> last (hd vfd # ks) = last vfd"
    using inj mem lmem by (auto dest: inj_onD)
  then show ?thesis unfolding vfd_def [symmetric] using ks(2) by (auto split: if_splits)
qed

theorem first_and_last_kept_witness:
  "distinct (map id' [gpsPoint 1 (Some 50) (Some 8), gpsPoint 2 None (Some 8),
        gpsPoint 3 (Some 50.0000005) (Some 8), gpsPoint 4 (Some 50.000001) (Some 8),
        gpsPoint 5 (Some 50.000001) None]) \<and>
   validFlightData [gpsPoint 1 (Some 50) (Some 8), gpsPoint 2 None (Some 8),
        gpsPoint 3 (Some 50.0000005) (Some 8), gpsPoint 4 (Some 50.000001) (Some 8),
        gpsPoint 5 (Some 50.000001) None] \<noteq> [] \<and>
   hd (intelligentPoints (validFlightData [gpsPoint 1 (Some 50) (Some 8), gpsPoint 2 None (Some 8),
        gpsPoint 3 (Some 50.0000005) (Some 8), gpsPoint 4 (Some 50.000001) (Some 8),
        gpsPoint 5 (Some 50.000001) None])) = gpsPoint 1 (Some 50) (Some 8) \<and>
   last (intelligentPoints (validFlightData [gpsPoint 1 (Some 50) (Some 8), gpsPoint 2 None (Some 8),
        gpsPoint 3 (Some 50.0000005) (Some 8), gpsPoint 4 (Some 50.000001) (Some 8),
        gpsPoint 5 (Some 50.000001) None])) = gpsPoint 4 (Some 50.000001) (Some 8)"
proof -
  have v: "validFlightData [gpsPoint 1 (Some 50) (Some 8), gpsPoint 2 None (Some 8),
        gpsPoint 3 (Some 50.0000005) (Some 8), gpsPoint 4 (Some 50.000001) (Some 8),
        gpsPoint 5 (Some 50.000001) None] =
      [gpsPoint 1 (Some 50) (Some 8), gpsPoint 3 (Some 50.0000005) (Some 8),
       gpsPoint 4 (Some 50.000001) (Some 8)]"
    by (simp add: validFlightData_def del: not_None_eq)
  show ?thesis
    using first_and_last_kept [of "[gpsPoint 1 (Some 50) (Some 8), gpsPoint 2 None (Some 8),
        gpsPoint 3 (Some 50.0000005) (Some 8), gpsPoint 4 (Some 50.000001) (Some 8),
        gpsPoint 5 (Some 50.000001) None]"]
    unfolding v by simp
qed

text \<open>
  C5. In the decimated output without its last point, which may be the appended last
  valid point, every two neighbouring points are at least 10 metres apart. The pair of the
  first point and the point kept after it is included.
\<close>

theorem loop_kept_points_far_apart:
  "successively (\<lambda>p q. geq10 (pointDistance p q))
     (butlast (intelligentPoints (validFlightData flightData)))"
proof (cases "length (validFlightData flightData) < 2")
  case True
  then have "butlast (intelligentPoints (validFlightData flightData)) = []"
    by (cases "validFlightData flightData") (simp_all add: intelligentPoints_def)
  then show ?thesis by simp
next
  case False
  define vfd where "vfd = validFlightData flightData"
  have len: "2 \<le> length vfd" using False by (simp add: vfd_def)
  obtain ks where ks: "successively (\<lambda>p q. guard p q \<and> geq10 (pointDistance p q)) (hd vfd # ks)"
    "intelligentPoints vfd =
       (if id' (last vfd) \<noteq> id' (last (hd vfd # ks)) then (hd vfd # ks) @ [last vfd] else hd vfd # ks)"
    using intelligentPoints_shape [OF len] by blast
  define kept where "kept = hd vfd # ks"
  have kne: "kept \<noteq> []" by (simp add: kept_def)
  from ks(1) have s: "successively (\<lambda>p q. geq10 (pointDistance p q)) kept"
    unfolding kept_def by (rule successively_mono) auto
  have "successively (\<lambda>p q. geq10 (pointDistance p q)) (butlast kept @ [last kept])"
    using s kne by simp
  then have b: "successively (\<lambda>p q. geq10 (pointDistance p q)) (butlast kept)"
    unfolding successively_append_iff by simp
  have "intelligentPoints vfd = kept @ [last vfd] \<or> intelligentPoints vfd = kept"
    using ks(2) unfolding kept_def [symmetric] by (simp split: if_splits)
  then show ?thesis unfolding vfd_def [symmetric]
  proof
    assume "intelligentPoints vfd = kept @ [last vfd]"
    then show "successively (\<lambda>p q. geq10 (pointDistance p q)) (butlast (intelligentPoints vfd))"
      using s by simp
  next
    assume "intelligentPoints vfd = kept"
    then show "successively (\<lambda>p q. geq10 (pointDistance p q)) (butlast (intelligentPoints vfd))"
      using b by simp
  qed
qed

theorem loop_kept_points_far_apart_witness:
  "intelligentPoints (validFlightData [gpsPoint 1 (Some 50) (Some 8), gpsPoint 2 (Some 50.001) (Some 8),
        gpsPoint 3 (Some 50.0010005) (Some 8), gpsPoint 4 (Some 50.002) (Some 8),
        gpsPoint 5 (Some 50.0020005) (Some 8)]) =
     [gpsPoint 1 (Some 50) (Some 8), gpsPoint 2 (Some 50.001) (Some 8),
      gpsPoint 4 (Some 50.002) (Some 8), gpsPoint 5 (Some 50.0020005) (Some 8)] \<and>
   successively (\<lambda>p q. geq10 (pointDistance p q))
     [gpsPoint 1 (Some 50) (Some 8), gpsPoint 2 (Some 50.001) (Some 8), gpsPoint 4 (Some 50.002) (Some 8)]"
proof -
  have e: "intelligentPoints (validFlightData [gpsPoint 1 (Some 50) (Some 8), gpsPoint 2 (Some 50.001) (Some 8),
        gpsPoint 3 (Some 50.0010005) (Some 8), gpsPoint 4 (Some 50.002) (Some 8),
        gpsPoint 5 (Some 50.0020005) (Some 8)]) =
     [gpsPoint 1 (Some 50) (Some 8), gpsPoint 2 (Some 50.001) (Some 8),
      gpsPoint 4 (Some 50.002) (Some 8), gpsPoint 5 (Some 50.0020005) (Some 8)]"
  proof -
    have "validFlightData [gpsPoint 1 (Some 50) (Some 8), gpsPoint 2 (Some 50.001) (Some 8),
        gpsPoint 3 (Some 50.0010005) (Some 8), gpsPoint 4 (Some 50.002) (Some 8),
        gpsPoint 5 (Some 50.0020005) (Some 8)] = [gpsPoint 1 (Some 50) (Some 8), gpsPoint 2 (Some 50.001) (Some 8),
        gpsPoint 3 (Some 50.0010005) (Some 8), gpsPoint 4 (Some 50.002) (Some 8),
        gpsPoint 5 (Some 50.0020005) (Some 8)]"
      by (simp add: validFlightData_def del: not_None_eq)
    then show ?thesis by (simp add: intelligentPoints_def loopBody_cases guard_def)
  qed
  show ?thesis
    using loop_kept_points_far_apart [of "[gpsPoint 1 (Some 50) (Some 8), gpsPoint 2 (Some 50.001) (Some 8),
        gpsPoint 3 (Some 50.0010005) (Some 8), gpsPoint 4 (Some 50.002) (Some 8),
        gpsPoint 5 (Some 50.0020005) (Some 8)]"]
    unfolding e by (simp del: successively.simps)
qed

text \<open>
  C6, as amended. On an input of fewer than two points the routine returns the input
  unchanged. On an input of at least two points that have unique identifiers and lie
  within 10 metres of each other, it returns exactly the first and the last point. The
  example of the second part is a track of three points within 12 cm of each other.
\<close>

theorem decimation_edge_cases:
  "(length vfd < 2 \<longrightarrow> intelligentPoints vfd = vfd) \<and>
   (2 \<le> length vfd \<and> distinct (map id' vfd) \<and> (\<forall>p\<in>set vfd. \<forall>q\<in>set vfd. within10 p q) \<longrightarrow>
      intelligentPoints vfd = [hd vfd, last vfd])"
proof (intro conjI impI)
  assume "length vfd < 2"
  then show "intelligentPoints vfd = vfd"
    by (simp add: intelligentPoints_def)
next
  assume "2 \<le> length vfd \<and> distinct (map id' vfd) \<and> (\<forall>p\<in>set vfd. \<forall>q\<in>set vfd. within10 p q)"
  then have len: "2 \<le> length vfd" and dist: "distinct (map id' vfd)"
    and near: "\<forall>p\<in>set vfd. \<forall>q\<in>set vfd. within10 p q" by simp_all
  from len have ne: "vfd \<noteq> []" by auto
  have "\<forall>x\<in>set (tl vfd). \<not> geq10 (pointDistance (hd vfd) x)"
  proof
    fix x assume "x \<in> set (tl vfd)"
    then have "x \<in> set vfd" by (rule list.set_sel(2) [OF ne])
    moreover have "hd vfd \<in> set vfd" using ne by simp
    ultimately have "within10 (hd vfd) x" using near by blast
    then show "\<not> geq10 (pointDistance (hd vfd) x)" by (rule within10_not_geq10)
  qed
  then have loop: "forLoop (tl vfd) ([hd vfd], hd vfd) = ([hd vfd], hd vfd)"
    by (rule forLoop_keeps_nothing)
  have "(map id' vfd ! 0 = map id' vfd ! (length vfd - 1)) = (0 = length vfd - 1)"
    using dist len by (intro nth_eq_iff_index_eq) auto
  then have "id' (hd vfd) \<noteq> id' (last vfd)"
    using ne len by (simp add: hd_conv_nth last_conv_nth)
  then show "intelligentPoints vfd = [hd vfd, last vfd]"
    using len loop by (auto simp: intelligentPoints_def)
qed

theorem decimation_edge_cases_witness:
  "length [gpsPoint 2 (Some 50) (Some 8)] < 2 \<and>
   intelligentPoints [gpsPoint 2 (Some 50) (Some 8)] = [gpsPoint 2 (Some 50) (Some 8)] \<and>
   length ([] :: FlightDataPoint list) < 2 \<and>
   intelligentPoints [] = [] \<and>
   2 \<le> length [gpsPoint 1 (Some 50) (Some 8), gpsPoint 2 (Some 50.0000005) (Some 8),
        gpsPoint 3 (Some 50.000001) (Some 8)] \<and>
   distinct (map id' [gpsPoint 1 (Some 50) (Some 8), gpsPoint 2 (Some 50.0000005) (Some 8),
        gpsPoint 3 (Some 50.000001) (Some 8)]) \<and>
   list_all (\<lambda>p. list_all (within10 p)
       [gpsPoint 1 (Some 50) (Some 8), gpsPoint 2 (Some 50.0000005) (Some 8),
        gpsPoint 3 (Some 50.000001) (Some 8)])
     [gpsPoint 1 (Some 50) (Some 8), gpsPoint 2 (Some 50.0000005) (Some 8),
        gpsPoint 3 (Some 50.000001) (Some 8)] \<and>
   intelligentPoints [gpsPoint 1 (Some 50) (Some 8), gpsPoint 2 (Some 50.0000005) (Some 8),
        gpsPoint 3 (Some 50.000001) (Some 8)] =
     [gpsPoint 1 (Some 50) (Some 8), gpsPoint 3 (Some 50.000001) (Some 8)] \<and>
   length (intelligentPoints [gpsPoint 1 (Some 50) (Some 8), gpsPoint 2 (Some 50.0000005) (Some 8),
        gpsPoint 3 (Some 50.000001) (Some 8)]) = 2"
  using decimation_edge_cases [of "[gpsPoint 2 (Some 50) (Some 8)]"]
    decimation_edge_cases [of "[]"]
    decimation_edge_cases [of "[gpsPoint 1 (Some 50) (Some 8), gpsPoint 2 (Some 50.0000005) (Some 8),
        gpsPoint 3 (Some 50.000001) (Some 8)]"]
  by simp

text \<open>
  Without unique identifiers the second part fails: when the last of three points within
  12 cm of each other has the identifier of the first, the routine returns the first point
  alone.
\<close>

theorem shared_id_drops_last_counterexample:
  "2 \<le> length [gpsPoint 1 (Some 50) (Some 8), gpsPoint 2 (Some 50.0000005) (Some 8),
        gpsPoint 1 (Some 50.000001) (Some 8)] \<and>
   list_all (\<lambda>p. list_all (within10 p)
       [gpsPoint 1 (Some 50) (Some 8), gpsPoint 2 (Some 50.0000005) (Some 8),
        gpsPoint 1 (Some 50.000001) (Some 8)])
     [gpsPoint 1 (Some 50) (Some 8), gpsPoint 2 (Some 50.0000005) (Some 8),
        gpsPoint 1 (Some 50.000001) (Some 8)] \<and>
   intelligentPoints [gpsPoint 1 (Some 50) (Some 8), gpsPoint 2 (Some 50.0000005) (Some 8),
        gpsPoint 1 (Some 50.000001) (Some 8)] = [gpsPoint 1 (Some 50) (Some 8)] \<and>
   intelligentPoints [gpsPoint 1 (Some 50) (Some 8), gpsPoint 2 (Some 50.0000005) (Some 8),
        gpsPoint 1 (Some 50.000001) (Some 8)] \<noteq>
     [hd [gpsPoint 1 (Some 50) (Some 8), gpsPoint 2 (Some 50.0000005) (Some 8),
        gpsPoint 1 (Some 50.000001) (Some 8)],
      last [gpsPoint 1 (Some 50) (Some 8), gpsPoint 2 (Some 50.0000005) (Some 8),
        gpsPoint 1 (Some 50.000001) (Some 8)]]"
  by (simp add: intelligentPoints_def loopBody_cases guard_def)

text \<open>
  C10. A current point whose latitude or longitude is 0 leaves the state of the loop
  unchanged, whatever its distance from the reference point; so between the first and the
  last point of the output no point has latitude 0 or longitude 0. In the example the
  second point, on the equator and 111 m from the first, is dropped.
\<close>

theorem zero_coordinate_not_kept:
  "(latitude currentPoint = Some 0 \<or> longitude currentPoint = Some 0 \<longrightarrow>
      loopBody st currentPoint = st) \<and>
   (\<forall>p\<in>set (butlast (tl (intelligentPoints vfd))).
      latitude p \<noteq> Some 0 \<and> longitude p \<noteq> Some 0)"
proof (rule conjI)
  show "latitude currentPoint = Some 0 \<or> longitude currentPoint = Some 0 \<longrightarrow>
      loopBody st currentPoint = st"
  proof
    assume "latitude currentPoint = Some 0 \<or> longitude currentPoint = Some 0"
    then have "\<not> guard (snd st) currentPoint" by (auto simp: guard_def)
    then show "loopBody st currentPoint = st" by (cases st) (simp add: loopBody_cases)
  qed
next
  show "\<forall>p\<in>set (butlast (tl (intelligentPoints vfd))).
      latitude p \<noteq> Some 0 \<and> longitude p \<noteq> Some 0"
  proof
  fix p assume p: "p \<in> set (butlast (tl (intelligentPoints vfd)))"
  have "truthy (latitude p) \<and> truthy (longitude p)"
  proof (cases "length vfd < 2")
    case True
    then have "butlast (tl (intelligentPoints vfd)) = []"
      by (cases vfd) (simp_all add: intelligentPoints_def)
    with p show ?thesis by simp
  next
    case False
    then have len: "2 \<le> length vfd" by simp
    obtain ks where ks: "successively (\<lambda>p q. guard p q \<and> geq10 (pointDistance p q)) (hd vfd # ks)"
      "intelligentPoints vfd =
         (if id' (last vfd) \<noteq> id' (last (hd vfd # ks)) then (hd vfd # ks) @ [last vfd] else hd vfd # ks)"
      using intelligentPoints_shape [OF len] by blast
    have all: "\<forall>q\<in>set ks. truthy (latitude q) \<and> truthy (longitude q)"
      using ks(1) by (rule successively_guard_truthy)
    have "intelligentPoints vfd = hd vfd # ks @ [last vfd] \<or> intelligentPoints vfd = hd vfd # ks"
      using ks(2) by (simp split: if_splits)
    then have "set (butlast (tl (intelligentPoints vfd))) \<subseteq> set ks"
    proof
      assume "intelligentPoints vfd = hd vfd # ks @ [last vfd]"
      then show ?thesis by simp
    next
      assume "intelligentPoints vfd = hd vfd # ks"
      then show ?thesis using in_set_butlastD [of _ ks] by auto
    qed
    with p all show ?thesis by blast
  qed
  then show "latitude p \<noteq> Some 0 \<and> longitude p \<noteq> Some 0" by auto
  qed
qed

theorem zero_coordinate_not_kept_witness:
  "(latitude (gpsPoint 2 (Some 0) (Some 8)) = Some 0 \<or> longitude (gpsPoint 2 (Some 0) (Some 8)) = Some 0) \<and>
   geq10 (pointDistance (gpsPoint 1 (Some 0.001) (Some 8)) (gpsPoint 2 (Some 0) (Some 8))) \<and>
   loopBody ([gpsPoint 1 (Some 0.001) (Some 8)], gpsPoint 1 (Some 0.001) (Some 8)) (gpsPoint 2 (Some 0) (Some 8)) =
     ([gpsPoint 1 (Some 0.001) (Some 8)], gpsPoint 1 (Some 0.001) (Some 8)) \<and>
   intelligentPoints [gpsPoint 1 (Some 0.001) (Some 8), gpsPoint 2 (Some 0) (Some 8),
        gpsPoint 3 (Some 0.002) (Some 8), gpsPoint 4 (Some 0.003) (Some 8)] =
     [gpsPoint 1 (Some 0.001) (Some 8), gpsPoint 3 (Some 0.002) (Some 8), gpsPoint 4 (Some 0.003) (Some 8)] \<and>
   list_all (\<lambda>p. latitude p \<noteq> Some 0 \<and> longitude p \<noteq> Some 0)
     (butlast (tl (intelligentPoints [gpsPoint 1 (Some 0.001) (Some 8), gpsPoint 2 (Some 0) (Some 8),
        gpsPoint 3 (Some 0.002) (Some 8), gpsPoint 4 (Some 0.003) (Some 8)])))"
proof -
  note t = zero_coordinate_not_kept [of "gpsPoint 2 (Some 0) (Some 8)"
      "([gpsPoint 1 (Some 0.001) (Some 8)], gpsPoint 1 (Some 0.001) (Some 8))"
      "[gpsPoint 1 (Some 0.001) (Some 8), gpsPoint 2 (Some 0) (Some 8),
        gpsPoint 3 (Some 0.002) (Some 8), gpsPoint 4 (Some 0.003) (Some 8)]"]
  have h: "latitude (gpsPoint 2 (Some 0) (Some 8)) = Some 0 \<or> longitude (gpsPoint 2 (Some 0) (Some 8)) = Some 0"
    by simp
  have a: "geq10 (pointDistance (gpsPoint 1 (Some 0.001) (Some 8)) (gpsPoint 2 (Some 0) (Some 8)))"
    by simp
  have e: "intelligentPoints [gpsPoint 1 (Some 0.001) (Some 8), gpsPoint 2 (Some 0) (Some 8),
        gpsPoint 3 (Some 0.002) (Some 8), gpsPoint 4 (Some 0.003) (Some 8)] =
     [gpsPoint 1 (Some 0.001) (Some 8), gpsPoint 3 (Some 0.002) (Some 8), gpsPoint 4 (Some 0.003) (Some 8)]"
    by (simp add: intelligentPoints_def loopBody_cases guard_def)
  from t have "list_all (\<lambda>p. latitude p \<noteq> Some 0 \<and> longitude p \<noteq> Some 0)
     (butlast (tl (intelligentPoints [gpsPoint 1 (Some 0.001) (Some 8), gpsPoint 2 (Some 0) (Some 8),
        gpsPoint 3 (Some 0.002) (Some 8), gpsPoint 4 (Some 0.003) (Some 8)])))"
    unfolding list_all_iff by (rule conjunct2)
  moreover from t h have "loopBody ([gpsPoint 1 (Some 0.001) (Some 8)], gpsPoint 1 (Some 0.001) (Some 8))
      (gpsPoint 2 (Some 0) (Some 8)) =
     ([gpsPoint 1 (Some 0.001) (Some 8)], gpsPoint 1 (Some 0.001) (Some 8))" by blast
  ultimately show ?thesis using h a e by blast
qed

section \<open>Properties of the sort\<close>

subsection \<open>What a consistent comparison function gives\<close>

lemma consistent_refl: "consistentComparator cmp S \<Longrightarrow> a \<in> S \<Longrightarrow> cmp a a = 0"
  by (simp add: consistentComparator_def)

lemma consistent_sym: "consistentComparator cmp S \<Longrightarrow> a \<in> S \<Longrightarrow> b \<in> S \<Longrightarrow> cmp a b = 0 \<Longrightarrow> cmp b a = 0"
  unfolding consistentComparator_def by blast

lemma consistent_trans_eq:
  "consistentComparator cmp S \<Longrightarrow> a \<in> S \<Longrightarrow> b \<in> S \<Longrightarrow> c \<in> S \<Longrightarrow>
   cmp a b = 0 \<Longrightarrow> cmp b c = 0 \<Longrightarrow> cmp a c = 0"
  unfolding consistentComparator_def by blast

lemma consistent_trans_less:
  "consistentComparator cmp S \<Longrightarrow> a \<in> S \<Longrightarrow> b \<in> S \<Longrightarrow> c \<in> S \<Longrightarrow>
   cmp a b < 0 \<Longrightarrow> cmp b c < 0 \<Longrightarrow> cmp a c < 0"
  unfolding consistentComparator_def by blast

lemma consistent_trans_greater:
  "consistentComparator cmp S \<Longrightarrow> a \<in> S \<Longrightarrow> b \<in> S \<Longrightarrow> c \<in> S \<Longrightarrow>
   cmp a b > 0 \<Longrightarrow> cmp b c > 0 \<Longrightarrow> cmp a c > 0"
  unfolding consistentComparator_def by blast

lemma consistent_less_greater:
  assumes "consistentComparator cmp S" "a \<in> S" "b \<in> S" "cmp a b < 0"
  shows "cmp b a > 0"
proof (rule ccontr)
  assume "\<not> cmp b a > 0"
  then consider "cmp b a = 0" | "cmp b a < 0" by linarith
  then show False
  proof cases
    case 1
    then have "cmp a b = 0" using assms consistent_sym by metis
    with assms(4) show False by simp
  next
    case 2
    then have "cmp a a < 0" using assms consistent_trans_less by metis
    moreover have "cmp a a = 0" using assms consistent_refl by metis
    ultimately show False by simp
  qed
qed

lemma consistent_greater_less:
  assumes "consistentComparator cmp S" "a \<in> S" "b \<in> S" "cmp a b > 0"
  shows "cmp b a < 0"
proof (rule ccontr)
  assume "\<not> cmp b a < 0"
  then consider "cmp b a = 0" | "cmp b a > 0" by linarith
  then show False
  proof cases
    case 1
    then have "cmp a b = 0" using assms consistent_sym by metis
    with assms(4) show False by simp
  next
    case 2
    then have "cmp a a > 0" using assms consistent_trans_greater by metis
    moreover have "cmp a a = 0" using assms consistent_refl by metis
    ultimately show False by simp
  qed
qed

lemma consistent_less_eq:
  assumes "consistentComparator cmp S" "a \<in> S" "b \<in> S" "c \<in> S" "cmp a b < 0" "cmp b c = 0"
  shows "cmp a c < 0"
proof (rule ccontr)
  assume "\<not> cmp a c < 0"
  then consider "cmp a c = 0" | "cmp a c > 0" by linarith
  then show False
  proof cases
    case 1
    have "cmp c b = 0" using assms consistent_sym by metis
    with 1 have "cmp a b = 0" using assms consistent_trans_eq by metis
    with assms(5) show False by simp
  next
    case 2
    then have "cmp c a < 0" using assms consistent_greater_less by metis
    then have "cmp c b < 0" using assms consistent_trans_less by metis
    moreover have "cmp c b = 0" using assms consistent_sym by metis
    ultimately show False by simp
  qed
qed

lemma consistent_eq_less:
  assumes "consistentComparator cmp S" "a \<in> S" "b \<in> S" "c \<in> S" "cmp a b = 0" "cmp b c < 0"
  shows "cmp a c < 0"
proof (rule ccontr)
  assume "\<not> cmp a c < 0"
  then consider "cmp a c = 0" | "cmp a c > 0" by linarith
  then show False
  proof cases
    case 1
    have "cmp b a = 0" using assms consistent_sym by metis
    with 1 have "cmp b c = 0" using assms consistent_trans_eq by metis
    with assms(6) show False by simp
  next
    case 2
    then have "cmp c a < 0" using assms consistent_greater_less by metis
    then have "cmp b a < 0" using assms consistent_trans_less by metis
    moreover have "cmp b a = 0" using assms consistent_sym by metis
    ultimately show False by simp
  qed
qed

lemma consistent_trans_le:
  assumes "consistentComparator cmp S" "a \<in> S" "b \<in> S" "c \<in> S" "cmp a b \<le> 0" "cmp b c \<le> 0"
  shows "cmp a c \<le> 0"
proof -
  consider "cmp a b < 0" "cmp b c < 0" | "cmp a b < 0" "cmp b c = 0"
    | "cmp a b = 0" "cmp b c < 0" | "cmp a b = 0" "cmp b c = 0"
    using assms(5,6) by linarith
  then show ?thesis
  proof cases
    case 1 then show ?thesis using assms consistent_trans_less [of cmp S a b c] by simp
  next
    case 2 then show ?thesis using assms consistent_less_eq [of cmp S a b c] by simp
  next
    case 3 then show ?thesis using assms consistent_eq_less [of cmp S a b c] by simp
  next
    case 4 then show ?thesis using assms consistent_trans_eq [of cmp S a b c] by simp
  qed
qed

lemma consistent_total:
  assumes "consistentComparator cmp S" "a \<in> S" "b \<in> S" "\<not> cmp a b \<le> 0"
  shows "cmp b a \<le> 0"
  using consistent_greater_less [OF assms(1-3)] assms(4) by simp

subsection \<open>Insertion sort\<close>

lemma set_insertSorted [simp]: "set (insertSorted cmp x ys) = insert x (set ys)"
  by (induction ys) auto

lemma mset_insertSorted [simp]: "mset (insertSorted cmp x ys) = add_mset x (mset ys)"
  by (induction ys) auto

lemma mset_arraySort [simp]: "mset (arraySort cmp xs) = mset xs"
  by (induction xs) (simp_all add: arraySort_def)

lemma set_arraySort [simp]: "set (arraySort cmp xs) = set xs"
  by (induction xs) (simp_all add: arraySort_def)

lemma arraySort_Cons: "arraySort cmp (x # xs) = insertSorted cmp x (arraySort cmp xs)"
  by (simp add: arraySort_def)

lemma arraySort_Nil [simp]: "arraySort cmp [] = []"
  by (simp add: arraySort_def)

lemma sorted_insertSorted:
  assumes "consistentComparator cmp S" "x \<in> S" "set ys \<subseteq> S"
    and "sorted_wrt (\<lambda>a b. cmp a b \<le> 0) ys"
  shows "sorted_wrt (\<lambda>a b. cmp a b \<le> 0) (insertSorted cmp x ys)"
  using assms(3,4)
proof (induction ys)
  case Nil
  then show ?case by simp
next
  case (Cons y ys)
  show ?case
  proof (cases "cmp x y \<le> 0")
    case True
    have "\<forall>z\<in>set ys. cmp x z \<le> 0"
    proof
      fix z assume z: "z \<in> set ys"
      then have "cmp y z \<le> 0" using Cons.prems(2) by simp
      then show "cmp x z \<le> 0"
        using consistent_trans_le [OF assms(1), of x y z] assms(2) Cons.prems(1) z True by auto
    qed
    then show ?thesis using True Cons.prems(2) by simp
  next
    case False
    then have "cmp y x \<le> 0"
      using consistent_total [OF assms(1), of x y] assms(2) Cons.prems(1) by simp
    moreover have "sorted_wrt (\<lambda>a b. cmp a b \<le> 0) (insertSorted cmp x ys)"
      using Cons by simp
    ultimately show ?thesis using False Cons.prems(2) by auto
  qed
qed

lemma sorted_arraySort:
  assumes "consistentComparator cmp S" "set xs \<subseteq> S"
  shows "sorted_wrt (\<lambda>a b. cmp a b \<le> 0) (arraySort cmp xs)"
  using assms(2)
proof (induction xs)
  case Nil
  then show ?case by simp
next
  case (Cons x xs)
  then show ?case
    using sorted_insertSorted [OF assms(1), of x "arraySort cmp xs"] by (simp add: arraySort_Cons)
qed

lemma insertSorted_least:
  assumes "\<forall>y\<in>set ys. cmp x y \<le> 0"
  shows "insertSorted cmp x ys = x # ys"
  using assms by (cases ys) simp_all

lemma arraySort_sorted_id:
  assumes "sorted_wrt (\<lambda>a b. cmp a b \<le> 0) xs"
  shows "arraySort cmp xs = xs"
  using assms by (induction xs) (simp_all add: arraySort_Cons insertSorted_least)

lemma filter_insertSorted:
  assumes "consistentComparator cmp S" "k \<in> S" "x \<in> S" "set ys \<subseteq> S"
  shows "filter (\<lambda>y. cmp k y = 0) (insertSorted cmp x ys) =
     (if cmp k x = 0 then x # filter (\<lambda>y. cmp k y = 0) ys else filter (\<lambda>y. cmp k y = 0) ys)"
  using assms(4)
proof (induction ys)
  case Nil
  then show ?case by simp
next
  case (Cons y ys)
  show ?case
  proof (cases "cmp x y \<le> 0")
    case True
    then show ?thesis by simp
  next
    case False
    have "\<not> (cmp k x = 0 \<and> cmp k y = 0)"
    proof
      assume h: "cmp k x = 0 \<and> cmp k y = 0"
      then have "cmp x k = 0" using consistent_sym [OF assms(1), of k x] assms(2,3) by simp
      then have "cmp x y = 0"
        using consistent_trans_eq [OF assms(1), of x k y] assms(2,3) Cons.prems h by simp
      with False show False by simp
    qed
    then show ?thesis using False Cons by auto
  qed
qed

lemma filter_arraySort:
  assumes "consistentComparator cmp S" "k \<in> S" "set xs \<subseteq> S"
  shows "filter (\<lambda>y. cmp k y = 0) (arraySort cmp xs) = filter (\<lambda>y. cmp k y = 0) xs"
  using assms(3)
proof (induction xs)
  case Nil
  then show ?case by simp
next
  case (Cons x xs)
  then show ?case
    using filter_insertSorted [OF assms(1,2), of x "arraySort cmp xs"] by (simp add: arraySort_Cons)
qed

subsection \<open>The comparison function on tagged elements\<close>

lemma stabilized_less:
  "stabilizedComparator cmp a b < 0 \<longleftrightarrow>
     cmp (fst a) (fst b) < 0 \<or> (cmp (fst a) (fst b) = 0 \<and> snd a < snd b)"
  by (auto simp: stabilizedComparator_def Let_def)

lemma stabilized_eq:
  "stabilizedComparator cmp a b = 0 \<longleftrightarrow> cmp (fst a) (fst b) = 0 \<and> snd a = snd b"
  by (auto simp: stabilizedComparator_def Let_def)

lemma stabilized_greater:
  "stabilizedComparator cmp a b > 0 \<longleftrightarrow>
     cmp (fst a) (fst b) > 0 \<or> (cmp (fst a) (fst b) = 0 \<and> snd b < snd a)"
  by (auto simp: stabilizedComparator_def Let_def)

lemma stabilized_le:
  "stabilizedComparator cmp a b \<le> 0 \<longleftrightarrow>
     cmp (fst a) (fst b) < 0 \<or> (cmp (fst a) (fst b) = 0 \<and> snd a \<le> snd b)"
  by (auto simp: stabilizedComparator_def Let_def)

lemma consistent_stabilized:
  assumes "consistentComparator cmp (fst ` T)"
  shows "consistentComparator (stabilizedComparator cmp) T"
proof -
  note c = assms
  have r: "cmp (fst a) (fst a) = 0" if "a \<in> T" for a
    using consistent_refl [OF c, of "fst a"] that by simp
  have s: "cmp (fst b) (fst a) = 0" if "a \<in> T" "b \<in> T" "cmp (fst a) (fst b) = 0" for a b
    using consistent_sym [OF c, of "fst a" "fst b"] that by simp
  have te: "cmp (fst a) (fst d) = 0"
    if "a \<in> T" "b \<in> T" "d \<in> T" "cmp (fst a) (fst b) = 0" "cmp (fst b) (fst d) = 0" for a b d
    using consistent_trans_eq [OF c, of "fst a" "fst b" "fst d"] that by simp
  have tl: "cmp (fst a) (fst d) < 0"
    if "a \<in> T" "b \<in> T" "d \<in> T" "cmp (fst a) (fst b) < 0" "cmp (fst b) (fst d) < 0" for a b d
    using consistent_trans_less [OF c, of "fst a" "fst b" "fst d"] that by simp
  have le: "cmp (fst a) (fst d) < 0"
    if "a \<in> T" "b \<in> T" "d \<in> T" "cmp (fst a) (fst b) < 0" "cmp (fst b) (fst d) = 0" for a b d
    using consistent_less_eq [OF c, of "fst a" "fst b" "fst d"] that by simp
  have el: "cmp (fst a) (fst d) < 0"
    if "a \<in> T" "b \<in> T" "d \<in> T" "cmp (fst a) (fst b) = 0" "cmp (fst b) (fst d) < 0" for a b d
    using consistent_eq_less [OF c, of "fst a" "fst b" "fst d"] that by simp
  have gl: "cmp (fst b) (fst a) < 0" if "a \<in> T" "b \<in> T" "cmp (fst a) (fst b) > 0" for a b
    using consistent_greater_less [OF c, of "fst a" "fst b"] that by simp
  have lg: "cmp (fst b) (fst a) > 0" if "a \<in> T" "b \<in> T" "cmp (fst a) (fst b) < 0" for a b
    using consistent_less_greater [OF c, of "fst a" "fst b"] that by simp
  have less: "stabilizedComparator cmp a d < 0"
    if "a \<in> T" "b \<in> T" "d \<in> T"
      "stabilizedComparator cmp a b < 0" "stabilizedComparator cmp b d < 0" for a b d
  proof -
    from that(4,5) consider
        "cmp (fst a) (fst b) < 0" "cmp (fst b) (fst d) < 0"
      | "cmp (fst a) (fst b) < 0" "cmp (fst b) (fst d) = 0"
      | "cmp (fst a) (fst b) = 0" "cmp (fst b) (fst d) < 0"
      | "cmp (fst a) (fst b) = 0" "snd a < snd b" "cmp (fst b) (fst d) = 0" "snd b < snd d"
      unfolding stabilized_less by blast
    then show ?thesis
    proof cases
      case 1 then show ?thesis unfolding stabilized_less using tl [OF that(1-3)] by simp
    next
      case 2 then show ?thesis unfolding stabilized_less using le [OF that(1-3)] by simp
    next
      case 3 then show ?thesis unfolding stabilized_less using el [OF that(1-3)] by simp
    next
      case 4 then show ?thesis unfolding stabilized_less using te [OF that(1-3)] by simp
    qed
  qed
  have conv: "stabilizedComparator cmp b a < 0"
    if "a \<in> T" "b \<in> T" "stabilizedComparator cmp a b > 0" for a b
  proof -
    from that(3) consider "cmp (fst a) (fst b) > 0"
      | "cmp (fst a) (fst b) = 0" "snd b < snd a"
      unfolding stabilized_greater by blast
    then show ?thesis
    proof cases
      case 1 then show ?thesis unfolding stabilized_less using gl [OF that(1,2)] by simp
    next
      case 2 then show ?thesis unfolding stabilized_less using s [OF that(1,2)] by simp
    qed
  qed
  have conv': "stabilizedComparator cmp b a > 0"
    if "a \<in> T" "b \<in> T" "stabilizedComparator cmp a b < 0" for a b
  proof -
    from that(3) consider "cmp (fst a) (fst b) < 0"
      | "cmp (fst a) (fst b) = 0" "snd a < snd b"
      unfolding stabilized_less by blast
    then show ?thesis
    proof cases
      case 1 then show ?thesis unfolding stabilized_greater using lg [OF that(1,2)] by simp
    next
      case 2 then show ?thesis unfolding stabilized_greater using s [OF that(1,2)] by simp
    qed
  qed
  have greater: "stabilizedComparator cmp a d > 0"
    if "a \<in> T" "b \<in> T" "d \<in> T"
      "stabilizedComparator cmp a b > 0" "stabilizedComparator cmp b d > 0" for a b d
  proof -
    have "stabilizedComparator cmp b a < 0" using that by (intro conv)
    moreover have "stabilizedComparator cmp d b < 0" using that by (intro conv)
    ultimately have "stabilizedComparator cmp d a < 0" using that by (intro less [of d b a])
    then show ?thesis using that by (intro conv')
  qed
  show ?thesis
    unfolding consistentComparator_def
  proof (intro conjI ballI impI)
    fix a assume "a \<in> T"
    then show "stabilizedComparator cmp a a = 0" unfolding stabilized_eq by (simp add: r)
  next
    fix a b assume "a \<in> T" "b \<in> T" "stabilizedComparator cmp a b = 0"
    then show "stabilizedComparator cmp b a = 0" unfolding stabilized_eq by (simp add: s)
  next
    fix a b d assume h: "a \<in> T" "b \<in> T" "d \<in> T"
      "stabilizedComparator cmp a b = 0 \<and> stabilizedComparator cmp b d = 0"
    then have "cmp (fst a) (fst b) = 0" "cmp (fst b) (fst d) = 0" "snd a = snd d"
      unfolding stabilized_eq by simp_all
    then show "stabilizedComparator cmp a d = 0"
      unfolding stabilized_eq using te [OF h(1-3)] by simp
  next
    fix a b d assume h: "a \<in> T" "b \<in> T" "d \<in> T"
      "stabilizedComparator cmp a b < 0 \<and> stabilizedComparator cmp b d < 0"
    then show "stabilizedComparator cmp a d < 0" using less [OF h(1-3)] by simp
  next
    fix a b d assume h: "a \<in> T" "b \<in> T" "d \<in> T"
      "0 < stabilizedComparator cmp a b \<and> 0 < stabilizedComparator cmp b d"
    then show "0 < stabilizedComparator cmp a d" using greater [OF h(1-3)] by simp
  qed
qed

subsection \<open>The tagged array\<close>

lemma fst_set_zip_upt: "fst ` set (zip xs [n ..< n + length xs]) = set xs"
proof -
  have "map fst (zip xs [n ..< n + length xs]) = xs" by simp
  then show ?thesis by (metis set_map)
qed

lemma mset_stabilizedThis:
  "mset (stabilizedThis array cmp) = mset (zip array [0 ..< length array])"
  by (simp add: stabilizedThis_def)

lemma distinct_tags: "distinct (map snd (stabilizedThis array cmp))"
proof -
  have "mset (map snd (stabilizedThis array cmp)) = mset (map snd (zip array [0 ..< length array]))"
    using mset_stabilizedThis [of array cmp] by (metis mset_map)
  also have "\<dots> = mset [0 ..< length array]" by simp
  finally show ?thesis by (metis distinct_upt mset_eq_imp_distinct_iff)
qed

lemma sorted_stabilizedThis_le:
  assumes "consistentComparator cmp (set array)"
  shows "sorted_wrt (\<lambda>a b. stabilizedComparator cmp a b \<le> 0) (stabilizedThis array cmp)"
proof -
  have "consistentComparator cmp (fst ` set (zip array [0 ..< length array]))"
    using assms fst_set_zip_upt [of array 0] by simp
  then have "consistentComparator (stabilizedComparator cmp) (set (zip array [0 ..< length array]))"
    by (rule consistent_stabilized)
  then show ?thesis unfolding stabilizedThis_def by (rule sorted_arraySort) simp
qed

lemma sorted_stabilizedThis:
  assumes "consistentComparator cmp (set array)"
  shows "sorted_wrt (\<lambda>a b. cmp (fst a) (fst b) < 0 \<or> (cmp (fst a) (fst b) = 0 \<and> snd a < snd b))
     (stabilizedThis array cmp)"
proof -
  let ?ts = "stabilizedThis array cmp"
  have le: "\<And>i j. i < j \<Longrightarrow> j < length ?ts \<Longrightarrow> stabilizedComparator cmp (?ts ! i) (?ts ! j) \<le> 0"
    using sorted_stabilizedThis_le [OF assms] by (simp add: sorted_wrt_iff_nth_less)
  have ne: "\<And>i j. i < j \<Longrightarrow> j < length ?ts \<Longrightarrow> snd (?ts ! i) \<noteq> snd (?ts ! j)"
  proof -
    fix i j assume ij: "i < j" "j < length ?ts"
    then have "map snd ?ts ! i \<noteq> map snd ?ts ! j"
      using distinct_tags [of array cmp] by (simp add: nth_eq_iff_index_eq del: nth_map)
    then show "snd (?ts ! i) \<noteq> snd (?ts ! j)" using ij by simp
  qed
  show ?thesis
    unfolding sorted_wrt_iff_nth_less
  proof (intro allI impI)
    fix i j assume ij: "i < j" "j < length ?ts"
    from le [OF ij] ne [OF ij]
    show "cmp (fst (?ts ! i)) (fst (?ts ! j)) < 0 \<or>
        (cmp (fst (?ts ! i)) (fst (?ts ! j)) = 0 \<and> snd (?ts ! i) < snd (?ts ! j))"
      unfolding stabilized_le by auto
  qed
qed

text \<open>
  With insertion sort the tags change nothing: the sort of the tagged array, untagged, is
  the sort of the array.
\<close>

lemma insertSorted_tagged:
  assumes "\<forall>t\<in>set ts. i < snd t"
  shows "map fst (insertSorted (stabilizedComparator cmp) (x, i) ts) = insertSorted cmp x (map fst ts)"
  using assms
proof (induction ts)
  case Nil
  then show ?case by simp
next
  case (Cons t ts)
  have "i < snd t" using Cons.prems by simp
  then have "stabilizedComparator cmp (x, i) t \<le> 0 \<longleftrightarrow> cmp x (fst t) \<le> 0"
    unfolding stabilized_le by auto
  then show ?case using Cons by simp
qed

lemma arraySort_tagged:
  "map fst (arraySort (stabilizedComparator cmp) (zip xs [n ..< n + length xs])) = arraySort cmp xs"
proof (induction xs arbitrary: n)
  case Nil
  then show ?case by simp
next
  case (Cons x xs)
  have "[n ..< n + length (x # xs)] = n # [Suc n ..< n + length (x # xs)]"
    by (rule upt_conv_Cons) simp
  then have u: "[n ..< n + length (x # xs)] = n # [Suc n ..< Suc n + length xs]"
    by simp
  have "\<forall>t\<in>set (arraySort (stabilizedComparator cmp) (zip xs [Suc n ..< Suc n + length xs])). n < snd t"
  proof
    fix t assume "t \<in> set (arraySort (stabilizedComparator cmp) (zip xs [Suc n ..< Suc n + length xs]))"
    then have "t \<in> set (zip xs [Suc n ..< Suc n + length xs])" by simp
    then have "snd t \<in> set [Suc n ..< Suc n + length xs]" by (metis prod.collapse set_zip_rightD)
    then show "n < snd t" by auto
  qed
  then show ?case
    unfolding u using Cons.IH [of "Suc n"] by (simp add: arraySort_Cons insertSorted_tagged)
qed

lemma stableSort_arraySort: "stableSort array cmp = arraySort cmp array"
  using arraySort_tagged [of cmp array 0] by (simp add: stableSort_def stabilizedThis_def)

text \<open>
  The result does not depend on the sorting algorithm: for a consistent comparator, every
  arrangement of the tagged array that is sorted by the comparison function of \<open>stableSort\<close>
  is the one that insertion sort computes.
\<close>

lemma sorted_wrt_unique:
  assumes "sorted_wrt R xs" "sorted_wrt R ys" "mset xs = mset ys"
    and anti: "\<And>a b. a \<in> set xs \<Longrightarrow> b \<in> set xs \<Longrightarrow> R a b \<Longrightarrow> R b a \<Longrightarrow> a = b"
  shows "xs = ys"
  using assms
proof (induction xs arbitrary: ys)
  case Nil
  then show ?case by simp
next
  case (Cons x xs)
  from Cons.prems(3) obtain y ys' where ys: "ys = y # ys'"
    by (cases ys) auto
  have sets: "set (x # xs) = set ys" using Cons.prems(3) by (metis mset_eq_setD)
  have "x = y"
  proof (rule ccontr)
    assume n: "x \<noteq> y"
    have "x \<in> set ys'" using sets n ys by auto
    then have 1: "R y x" using Cons.prems(2) ys by simp
    have "y \<in> set xs" using sets n ys by auto
    then have 2: "R x y" using Cons.prems(1) by simp
    have "y \<in> set (x # xs)" using sets ys by simp
    then show False using Cons.prems(4) [of x y] 1 2 n by simp
  qed
  moreover have "xs = ys'"
  proof (rule Cons.IH)
    show "sorted_wrt R xs" using Cons.prems(1) by simp
    show "sorted_wrt R ys'" using Cons.prems(2) ys by simp
    show "mset xs = mset ys'" using Cons.prems(3) ys \<open>x = y\<close> by simp
    show "\<And>a b. a \<in> set xs \<Longrightarrow> b \<in> set xs \<Longrightarrow> R a b \<Longrightarrow> R b a \<Longrightarrow> a = b"
      using Cons.prems(4) by simp
  qed
  ultimately show ?case using ys by simp
qed

lemma stabilizedThis_unique:
  assumes c: "consistentComparator cmp (set array)"
    and m: "mset ts = mset (zip array [0 ..< length array])"
    and s: "sorted_wrt (\<lambda>a b. stabilizedComparator cmp a b \<le> 0) ts"
  shows "ts = stabilizedThis array cmp"
proof (rule sorted_wrt_unique [OF s sorted_stabilizedThis_le [OF c]])
  show "mset ts = mset (stabilizedThis array cmp)" using m by (simp add: mset_stabilizedThis)
next
  fix a b assume a: "a \<in> set ts" and b: "b \<in> set ts"
    and ab: "stabilizedComparator cmp a b \<le> 0" and ba: "stabilizedComparator cmp b a \<le> 0"
  have sets: "set ts = set (zip array [0 ..< length array])" using m by (metis mset_eq_setD)
  have fa: "fst a \<in> set array" "fst b \<in> set array"
    using a b sets by (metis prod.collapse set_zip_leftD)+
  have "\<not> cmp (fst a) (fst b) < 0"
    using consistent_less_greater [OF c fa] ba unfolding stabilized_le by auto
  then have "snd a \<le> snd b" using ab unfolding stabilized_le by auto
  have "\<not> cmp (fst b) (fst a) < 0"
    using consistent_less_greater [OF c fa(2,1)] ab unfolding stabilized_le by auto
  then have "snd b \<le> snd a" using ba unfolding stabilized_le by auto
  with \<open>snd a \<le> snd b\<close> have e: "snd a = snd b" by simp
  obtain i where i: "i < length (zip array [0 ..< length array])" "a = zip array [0 ..< length array] ! i"
    using a sets by (metis in_set_conv_nth)
  obtain j where j: "j < length (zip array [0 ..< length array])" "b = zip array [0 ..< length array] ! j"
    using b sets by (metis in_set_conv_nth)
  have "snd a = i" "snd b = j" using i j by simp_all
  with e i j show "a = b" by simp
qed

subsection \<open>The order of strings, and comparators on one column\<close>

lemma stringLess_irrefl: "\<not> stringLess s s"
  by (induction s) simp_all

lemma stringLess_trans: "stringLess a b \<Longrightarrow> stringLess b c \<Longrightarrow> stringLess a c"
proof (induction a b arbitrary: c rule: stringLess.induct)
  case 1
  then show ?case by simp
next
  case (2 y ys)
  then show ?case by (cases c) simp_all
next
  case (3 x xs)
  then show ?case by simp
next
  case (4 x xs y ys)
  then show ?case
  proof (cases c)
    case Nil
    with 4 show ?thesis by simp
  next
    case (Cons z zs)
    show ?thesis
    proof (cases "(of_char x :: nat) < of_char y")
      case True
      then show ?thesis using 4(3) Cons by (auto split: if_splits)
    next
      case False
      with 4(2) have e: "(of_char x :: nat) = of_char y" and l: "stringLess xs ys"
        by (auto split: if_splits)
      show ?thesis
      proof (cases "(of_char y :: nat) < of_char z")
        case True
        then show ?thesis using e Cons by simp
      next
        case F2: False
        with 4(3) Cons have "(of_char y :: nat) = of_char z" and "stringLess ys zs"
          by (auto split: if_splits)
        then show ?thesis using e l Cons 4(1) [of zs] by simp
      qed
    qed
  qed
qed

lemma stringLess_total: "\<not> stringLess a b \<Longrightarrow> \<not> stringLess b a \<Longrightarrow> a = b"
proof (induction a b rule: stringLess.induct)
  case (4 x xs y ys)
  then have e: "(of_char x :: nat) = of_char y" by (auto split: if_splits)
  then have "x = y" by simp
  moreover have "xs = ys" using 4 e by (auto split: if_splits)
  ultimately show ?case by simp
qed simp_all

lemma consistent_from_key:
  fixes cmp :: "'a \<Rightarrow> 'a \<Rightarrow> real"
  assumes irrefl: "\<And>x. \<not> lt x x"
    and trans: "\<And>x y z. lt x y \<Longrightarrow> lt y z \<Longrightarrow> lt x z"
    and total: "\<And>x y. \<not> lt x y \<Longrightarrow> \<not> lt y x \<Longrightarrow> x = y"
    and less: "\<And>a b. a \<in> S \<Longrightarrow> b \<in> S \<Longrightarrow> cmp a b < 0 \<longleftrightarrow> lt (key a) (key b)"
    and greater: "\<And>a b. a \<in> S \<Longrightarrow> b \<in> S \<Longrightarrow> cmp a b > 0 \<longleftrightarrow> lt (key b) (key a)"
  shows "consistentComparator cmp S"
proof -
  have eq: "cmp a b = 0 \<longleftrightarrow> key a = key b" if "a \<in> S" "b \<in> S" for a b
  proof
    assume "cmp a b = 0"
    then have "\<not> lt (key a) (key b)" "\<not> lt (key b) (key a)"
      using less [OF that] greater [OF that] by simp_all
    then show "key a = key b" by (rule total)
  next
    assume "key a = key b"
    then have "\<not> cmp a b < 0" "\<not> cmp a b > 0"
      using less [OF that] greater [OF that] irrefl by simp_all
    then show "cmp a b = 0" by simp
  qed
  show ?thesis
    unfolding consistentComparator_def
  proof (intro conjI ballI impI)
    fix a assume "a \<in> S"
    then show "cmp a a = 0" by (simp add: eq)
  next
    fix a b assume "a \<in> S" "b \<in> S" "cmp a b = 0"
    then show "cmp b a = 0" by (simp add: eq)
  next
    fix a b c assume "a \<in> S" "b \<in> S" "c \<in> S" "cmp a b = 0 \<and> cmp b c = 0"
    then show "cmp a c = 0" by (simp add: eq)
  next
    fix a b c assume h: "a \<in> S" "b \<in> S" "c \<in> S" "cmp a b < 0 \<and> cmp b c < 0"
    then have "lt (key a) (key b)" "lt (key b) (key c)" by (simp_all add: less)
    then have "lt (key a) (key c)" by (rule trans)
    then show "cmp a c < 0" using h by (simp add: less)
  next
    fix a b c assume h: "a \<in> S" "b \<in> S" "c \<in> S" "0 < cmp a b \<and> 0 < cmp b c"
    then have "lt (key c) (key b)" "lt (key b) (key a)" by (simp_all add: greater)
    then have "lt (key c) (key a)" by (rule trans)
    then show "0 < cmp a c" using h by (simp add: greater)
  qed
qed

lemma descendingComparator_String:
  assumes "getProp a k = String x" "getProp b k = String y"
  shows "descendingComparator s a b k = (if stringLess y x then - 1 else if stringLess x y then 1 else 0)"
  using assms by (simp add: descendingComparator_def jsLess_def toPrimitive_def)

lemma descendingComparator_Number:
  assumes "getProp a k = Number x" "getProp b k = Number y"
  shows "descendingComparator s a b k = (if y < x then - 1 else if x < y then 1 else 0)"
  using assms by (simp add: descendingComparator_def jsLess_def toPrimitive_def toNumber_def)

lemma getComparator_range: "getComparator s ord k a b \<in> {- 1, 0, 1}"
  by (cases ord) (simp_all add: getComparator_def descendingComparator_def)

lemma jsLess_Undefined [simp]: "\<not> jsLess s Undefined y" "\<not> jsLess s x Undefined"
  by (auto simp: jsLess_def toPrimitive_def toNumber_def split: jsval.splits option.splits)

lemma getComparator_Undefined:
  assumes "getProp a k = Undefined \<or> getProp b k = Undefined"
  shows "getComparator s ord k a b = 0"
  using assms by (cases ord) (auto simp: getComparator_def descendingComparator_def)

lemma consistent_String_column:
  assumes "\<And>a. a \<in> S \<Longrightarrow> getProp a k = String (key a)"
  shows "consistentComparator (getComparator s ord k) S"
proof (cases ord)
  case asc
  show ?thesis
  proof (rule consistent_from_key [where lt = stringLess and key = key])
    fix a b assume "a \<in> S" "b \<in> S"
    then have d: "descendingComparator s a b k =
        (if stringLess (key b) (key a) then - 1 else if stringLess (key a) (key b) then 1 else 0)"
      using assms by (intro descendingComparator_String) simp_all
    show "getComparator s ord k a b < 0 \<longleftrightarrow> stringLess (key a) (key b)"
      using stringLess_trans [of "key a" "key b" "key a"] stringLess_irrefl [of "key a"]
      by (auto simp: asc getComparator_def d)
    show "getComparator s ord k a b > 0 \<longleftrightarrow> stringLess (key b) (key a)"
      by (auto simp: asc getComparator_def d)
  qed (auto intro: stringLess_trans stringLess_total simp: stringLess_irrefl)
next
  case desc
  show ?thesis
  proof (rule consistent_from_key [where lt = "\<lambda>x y. stringLess y x" and key = key])
    fix a b assume "a \<in> S" "b \<in> S"
    then have d: "descendingComparator s a b k =
        (if stringLess (key b) (key a) then - 1 else if stringLess (key a) (key b) then 1 else 0)"
      using assms by (intro descendingComparator_String) simp_all
    show "getComparator s ord k a b < 0 \<longleftrightarrow> stringLess (key b) (key a)"
      by (auto simp: desc getComparator_def d)
    show "getComparator s ord k a b > 0 \<longleftrightarrow> stringLess (key a) (key b)"
      using stringLess_trans [of "key a" "key b" "key a"] stringLess_irrefl [of "key a"]
      by (auto simp: desc getComparator_def d)
  qed (auto intro: stringLess_trans stringLess_total simp: stringLess_irrefl)
qed

lemma consistent_Number_column:
  assumes "\<And>a. a \<in> S \<Longrightarrow> getProp a k = Number (key a)"
  shows "consistentComparator (getComparator s ord k) S"
proof (cases ord)
  case asc
  show ?thesis
  proof (rule consistent_from_key [where lt = "(<)" and key = key])
    fix a b assume "a \<in> S" "b \<in> S"
    then have d: "descendingComparator s a b k =
        (if key b < key a then - 1 else if key a < key b then 1 else 0)"
      using assms by (intro descendingComparator_Number) simp_all
    show "getComparator s ord k a b < 0 \<longleftrightarrow> key a < key b"
      by (auto simp: asc getComparator_def d)
    show "getComparator s ord k a b > 0 \<longleftrightarrow> key b < key a"
      by (auto simp: asc getComparator_def d)
  qed auto
next
  case desc
  show ?thesis
  proof (rule consistent_from_key [where lt = "\<lambda>x y. y < x" and key = key])
    fix a b assume "a \<in> S" "b \<in> S"
    then have d: "descendingComparator s a b k =
        (if key b < key a then - 1 else if key a < key b then 1 else 0)"
      using assms by (intro descendingComparator_Number) simp_all
    show "getComparator s ord k a b < 0 \<longleftrightarrow> key b < key a"
      by (auto simp: desc getComparator_def d)
    show "getComparator s ord k a b > 0 \<longleftrightarrow> key a < key b"
      by (auto simp: desc getComparator_def d)
  qed auto
qed

lemma sortable_columns:
  "getProp (sortable f) ''pilot_name'' = String (orString (map_option Pilot_name (pilot f)) ''N/A'')"
  "getProp (sortable f) ''drone_name'' = String (orString (map_option Drone_name (drone f)) ''N/A'')"
  "getProp (sortable f) ''location_name'' =
     String (orString (map_option FlightLocation_name (flight_location f)) ''ZZZ'')"
  "getProp (sortable f) ''duration'' = Number (orZero (duration f))"
  "getProp (sortable f) ''flight_date'' =
     String (if length (flight_data f) > 0 then hd (flight_data f) else flight_date f)"
  by (simp_all add: sortable_def getProp_def)

lemma consistent_sortable_String:
  assumes "\<And>f. \<exists>v. getProp (sortable f) k = String v"
  shows "consistentComparator (getComparator s ord k) (range sortable)"
proof (rule consistent_String_column
    [where key = "\<lambda>a. case getProp a k of String v \<Rightarrow> v | _ \<Rightarrow> []"])
  fix a assume "a \<in> range sortable"
  then obtain f where "a = sortable f" by blast
  moreover obtain v where "getProp (sortable f) k = String v" using assms by blast
  ultimately show "getProp a k = String (case getProp a k of String v \<Rightarrow> v | _ \<Rightarrow> [])"
    by simp
qed

lemma consistent_sortable_Number:
  assumes "\<And>f. \<exists>v. getProp (sortable f) k = Number v"
  shows "consistentComparator (getComparator s ord k) (range sortable)"
proof (rule consistent_Number_column
    [where key = "\<lambda>a. case getProp a k of Number v \<Rightarrow> v | _ \<Rightarrow> 0"])
  fix a assume "a \<in> range sortable"
  then obtain f where "a = sortable f" by blast
  moreover obtain v where "getProp (sortable f) k = Number v" using assms by blast
  ultimately show "getProp a k = Number (case getProp a k of Number v \<Rightarrow> v | _ \<Rightarrow> 0)"
    by simp
qed

lemma sortableColumns_cases:
  assumes "col \<in> set sortableColumns"
  shows "col = ''flight_date'' \<or> col = ''pilot_name'' \<or> col = ''drone_name'' \<or>
     col = ''duration'' \<or> col = ''location_name''"
  using assms by (simp add: sortableColumns_def)

lemma consistent_sortable_column:
  assumes "col \<in> set sortableColumns"
  shows "consistentComparator (getComparator s ord col) (range sortable)"
  using sortableColumns_cases [OF assms]
proof (elim disjE)
  assume 1: "col = ''flight_date''"
  show ?thesis unfolding 1 by (rule consistent_sortable_String) (simp only: sortable_columns, blast)
next
  assume 1: "col = ''pilot_name''"
  show ?thesis unfolding 1 by (rule consistent_sortable_String) (simp only: sortable_columns, blast)
next
  assume 1: "col = ''drone_name''"
  show ?thesis unfolding 1 by (rule consistent_sortable_String) (simp only: sortable_columns, blast)
next
  assume 1: "col = ''duration''"
  show ?thesis unfolding 1 by (rule consistent_sortable_Number) (simp only: sortable_columns, blast)
next
  assume 1: "col = ''location_name''"
  show ?thesis unfolding 1 by (rule consistent_sortable_String) (simp only: sortable_columns, blast)
qed

lemma sortable_column_defined:
  assumes "col \<in> set sortableColumns"
  shows "(\<exists>v. getProp (sortable f) col = String v) \<or> (\<exists>v. getProp (sortable f) col = Number v)"
  using sortableColumns_cases [OF assms]
proof (elim disjE)
  assume 1: "col = ''flight_date''"
  show ?thesis unfolding 1 by (simp only: sortable_columns, blast)
next
  assume 1: "col = ''pilot_name''"
  show ?thesis unfolding 1 by (simp only: sortable_columns, blast)
next
  assume 1: "col = ''drone_name''"
  show ?thesis unfolding 1 by (simp only: sortable_columns, blast)
next
  assume 1: "col = ''duration''"
  show ?thesis unfolding 1 by (simp only: sortable_columns, blast)
next
  assume 1: "col = ''location_name''"
  show ?thesis unfolding 1 by (simp only: sortable_columns, blast)
qed

subsection \<open>The claims about sorting\<close>

text \<open>
  C4, as amended. For a consistent comparator, \<open>stableSort\<close> arranges the records with
  their input positions so that a record comes before another when the comparator puts it
  first, or when the comparator gives 0 and its input position is smaller; so the records
  that compare equal to a given record appear in the output in the order they have in the
  input. The
  arrangement is the only one that is sorted by the comparison function of \<open>stableSort\<close>,
  whatever algorithm \<open>sort\<close> runs. On the records b, a, a sorted by name ascending the
  result is a (position 1), a (position 2), b (position 0).
\<close>

theorem stableSort_stable:
  assumes "consistentComparator comparator (set array)"
  shows "mset (stabilizedThis array comparator) = mset (zip array [0 ..< length array]) \<and>
    sorted_wrt (\<lambda>a b. comparator (fst a) (fst b) < 0 \<or>
                       (comparator (fst a) (fst b) = 0 \<and> snd a < snd b))
      (stabilizedThis array comparator) \<and>
    (\<forall>k\<in>set array. filter (\<lambda>y. comparator k y = 0) (stableSort array comparator) =
                     filter (\<lambda>y. comparator k y = 0) array) \<and>
    (\<forall>ts. mset ts = mset (zip array [0 ..< length array]) \<and>
          sorted_wrt (\<lambda>a b. stabilizedComparator comparator a b \<le> 0) ts \<longrightarrow>
          ts = stabilizedThis array comparator)"
proof (intro conjI ballI allI impI)
  show "mset (stabilizedThis array comparator) = mset (zip array [0 ..< length array])"
    by (rule mset_stabilizedThis)
  show "sorted_wrt (\<lambda>a b. comparator (fst a) (fst b) < 0 \<or>
                       (comparator (fst a) (fst b) = 0 \<and> snd a < snd b))
      (stabilizedThis array comparator)"
    using assms by (rule sorted_stabilizedThis)
next
  fix k assume "k \<in> set array"
  then show "filter (\<lambda>y. comparator k y = 0) (stableSort array comparator) =
      filter (\<lambda>y. comparator k y = 0) array"
    unfolding stableSort_arraySort using filter_arraySort [OF assms, of k array] by simp
next
  fix ts assume "mset ts = mset (zip array [0 ..< length array]) \<and>
          sorted_wrt (\<lambda>a b. stabilizedComparator comparator a b \<le> 0) ts"
  then show "ts = stabilizedThis array comparator"
    using stabilizedThis_unique [OF assms, of ts] by simp
qed

theorem stableSort_stable_witness:
  "consistentComparator (getComparator (\<lambda>s. None) asc ''name'')
     (set [[(''name'', String ''b'')], [(''name'', String ''a'')], [(''name'', String ''a'')]]) \<and>
   stabilizedThis [[(''name'', String ''b'')], [(''name'', String ''a'')], [(''name'', String ''a'')]]
     (getComparator (\<lambda>s. None) asc ''name'') =
       [([(''name'', String ''a'')], 1), ([(''name'', String ''a'')], 2), ([(''name'', String ''b'')], 0)] \<and>
   stableSort [[(''name'', String ''b'')], [(''name'', String ''a'')], [(''name'', String ''a'')]]
     (getComparator (\<lambda>s. None) asc ''name'') =
       [[(''name'', String ''a'')], [(''name'', String ''a'')], [(''name'', String ''b'')]] \<and>
   filter (\<lambda>y. getComparator (\<lambda>s. None) asc ''name'' [(''name'', String ''a'')] y = 0)
     (stableSort [[(''name'', String ''b'')], [(''name'', String ''a'')], [(''name'', String ''a'')]]
        (getComparator (\<lambda>s. None) asc ''name'')) =
       [[(''name'', String ''a'')], [(''name'', String ''a'')]]"
proof -
  let ?cmp = "getComparator (\<lambda>s. None) asc ''name''"
  let ?a = "[(''name'', String ''a'')]"
  let ?b = "[(''name'', String ''b'')]"
  have c: "?cmp ?a ?a = 0" "?cmp ?b ?b = 0" "?cmp ?a ?b = - 1" "?cmp ?b ?a = 1"
    by (simp_all add: getComparator_def descendingComparator_def jsLess_def toPrimitive_def getProp_def)
  have cons: "consistentComparator ?cmp (set [?b, ?a, ?a])"
    unfolding consistentComparator_def by (simp add: c)
  have t: "stabilizedThis [?b, ?a, ?a] ?cmp = [(?a, 1), (?a, 2), (?b, 0)]"
    by (simp add: stabilizedThis_def arraySort_def stabilizedComparator_def c)
  have s: "stableSort [?b, ?a, ?a] ?cmp = [?a, ?a, ?b]"
    by (simp add: stableSort_def t)
  have "filter (\<lambda>y. ?cmp ?a y = 0) (stableSort [?b, ?a, ?a] ?cmp) = filter (\<lambda>y. ?cmp ?a y = 0) [?b, ?a, ?a]"
    using stableSort_stable [OF cons] by simp
  then have "filter (\<lambda>y. ?cmp ?a y = 0) (stableSort [?b, ?a, ?a] ?cmp) = [?a, ?a]"
    by (simp add: c)
  with cons t s show ?thesis by simp
qed

text \<open>
  For a comparator that is not consistent the order is not kept. A comparator on the name
  that never returns 0 reverses two records of the same name. The comparator of the page on
  a field that one record lacks is not consistent, and the records that compare equal to
  that record come out in another order than they went in.
\<close>

theorem stableSort_stable_counterexample:
  "stableSort [[(''name'', String ''a''), (''id'', Number 1)], [(''name'', String ''a''), (''id'', Number 2)]]
     (\<lambda>a b. if jsLess (\<lambda>s. None) (getProp a ''name'') (getProp b ''name'') then - 1 else 1) =
     [[(''name'', String ''a''), (''id'', Number 2)], [(''name'', String ''a''), (''id'', Number 1)]] \<and>
   \<not> consistentComparator (getComparator (\<lambda>s. None) asc ''v'')
       (set [[(''v'', Number 2)], [(''v'', Number 1)], []]) \<and>
   stableSort [[(''v'', Number 2)], [(''v'', Number 1)], []] (getComparator (\<lambda>s. None) asc ''v'') =
     [[(''v'', Number 1)], [(''v'', Number 2)], []] \<and>
   filter (\<lambda>y. getComparator (\<lambda>s. None) asc ''v'' [] y = 0)
     (stableSort [[(''v'', Number 2)], [(''v'', Number 1)], []] (getComparator (\<lambda>s. None) asc ''v'')) \<noteq>
   filter (\<lambda>y. getComparator (\<lambda>s. None) asc ''v'' [] y = 0)
     [[(''v'', Number 2)], [(''v'', Number 1)], []]"
proof -
  let ?cmp = "getComparator (\<lambda>s. None) asc ''v''"
  let ?x = "[(''v'', Number 2)]"
  let ?y = "[(''v'', Number 1)]"
  let ?k = "[] :: jsobject"
  have c: "?cmp ?x ?y = 1" "?cmp ?y ?x = - 1" "?cmp ?x ?k = 0" "?cmp ?k ?x = 0"
    "?cmp ?y ?k = 0" "?cmp ?k ?y = 0" "?cmp ?k ?k = 0" "?cmp ?x ?x = 0" "?cmp ?y ?y = 0"
    by (simp_all add: getComparator_def descendingComparator_def jsLess_def toPrimitive_def
        toNumber_def getProp_def)
  have n: "\<not> consistentComparator ?cmp (set [?x, ?y, ?k])"
  proof
    assume "consistentComparator ?cmp (set [?x, ?y, ?k])"
    then have "?cmp ?x ?y = 0"
      using consistent_trans_eq [of ?cmp "set [?x, ?y, ?k]" ?x ?k ?y] c by simp
    with c(1) show False by simp
  qed
  have s: "stableSort [?x, ?y, ?k] ?cmp = [?y, ?x, ?k]"
    by (simp add: stableSort_def stabilizedThis_def arraySort_def stabilizedComparator_def c)
  have a: "stableSort [[(''name'', String ''a''), (''id'', Number 1)], [(''name'', String ''a''), (''id'', Number 2)]]
     (\<lambda>a b. if jsLess (\<lambda>s. None) (getProp a ''name'') (getProp b ''name'') then - 1 else 1) =
     [[(''name'', String ''a''), (''id'', Number 2)], [(''name'', String ''a''), (''id'', Number 1)]]"
    by (simp add: stableSort_def stabilizedThis_def arraySort_def stabilizedComparator_def
        jsLess_def toPrimitive_def getProp_def)
  show ?thesis using n a unfolding s by (simp add: c)
qed

text \<open>
  C9, as amended. For a consistent comparator, sorting the result of \<open>stableSort\<close> again
  with the same comparator gives the same sequence.
\<close>

theorem stableSort_idempotent:
  assumes "consistentComparator comparator (set array)"
  shows "stableSort (stableSort array comparator) comparator = stableSort array comparator"
proof -
  have "sorted_wrt (\<lambda>a b. comparator a b \<le> 0) (arraySort comparator array)"
    using assms by (rule sorted_arraySort) simp
  then have "arraySort comparator (arraySort comparator array) = arraySort comparator array"
    by (rule arraySort_sorted_id)
  then show ?thesis by (simp add: stableSort_arraySort)
qed

theorem stableSort_idempotent_witness:
  "consistentComparator (getComparator (\<lambda>s. None) desc ''duration'')
     (set [[(''id'', Number 1), (''duration'', Number 3)], [(''id'', Number 2), (''duration'', Number 7)],
           [(''id'', Number 3), (''duration'', Number 3)]]) \<and>
   stableSort [[(''id'', Number 1), (''duration'', Number 3)], [(''id'', Number 2), (''duration'', Number 7)],
           [(''id'', Number 3), (''duration'', Number 3)]] (getComparator (\<lambda>s. None) desc ''duration'') =
     [[(''id'', Number 2), (''duration'', Number 7)], [(''id'', Number 1), (''duration'', Number 3)],
      [(''id'', Number 3), (''duration'', Number 3)]] \<and>
   stableSort (stableSort [[(''id'', Number 1), (''duration'', Number 3)], [(''id'', Number 2), (''duration'', Number 7)],
           [(''id'', Number 3), (''duration'', Number 3)]] (getComparator (\<lambda>s. None) desc ''duration''))
       (getComparator (\<lambda>s. None) desc ''duration'') =
     [[(''id'', Number 2), (''duration'', Number 7)], [(''id'', Number 1), (''duration'', Number 3)],
      [(''id'', Number 3), (''duration'', Number 3)]]"
proof -
  let ?cmp = "getComparator (\<lambda>s. None) desc ''duration''"
  let ?x = "[(''id'', Number 1), (''duration'', Number 3)]"
  let ?y = "[(''id'', Number 2), (''duration'', Number 7)]"
  let ?z = "[(''id'', Number 3), (''duration'', Number 3)]"
  have c: "?cmp ?x ?x = 0" "?cmp ?y ?y = 0" "?cmp ?z ?z = 0" "?cmp ?x ?z = 0" "?cmp ?z ?x = 0"
    "?cmp ?x ?y = 1" "?cmp ?z ?y = 1" "?cmp ?y ?x = - 1" "?cmp ?y ?z = - 1"
    by (simp_all add: getComparator_def descendingComparator_def jsLess_def toPrimitive_def
        toNumber_def getProp_def)
  have cons: "consistentComparator ?cmp (set [?x, ?y, ?z])"
    unfolding consistentComparator_def by (simp add: c)
  have s: "stableSort [?x, ?y, ?z] ?cmp = [?y, ?x, ?z]"
    by (simp add: stableSort_def stabilizedThis_def arraySort_def stabilizedComparator_def c)
  show ?thesis using stableSort_idempotent [OF cons] cons s by simp
qed

text \<open>
  With a comparator on the name that never returns 0, the first sort reverses two records
  of the same name and the second sort reverses them again.
\<close>

theorem stableSort_idempotent_counterexample:
  "stableSort [[(''name'', String ''a''), (''id'', Number 1)], [(''name'', String ''a''), (''id'', Number 2)]]
     (\<lambda>a b. if jsLess (\<lambda>s. None) (getProp a ''name'') (getProp b ''name'') then - 1 else 1) =
     [[(''name'', String ''a''), (''id'', Number 2)], [(''name'', String ''a''), (''id'', Number 1)]] \<and>
   stableSort
     (stableSort [[(''name'', String ''a''), (''id'', Number 1)], [(''name'', String ''a''), (''id'', Number 2)]]
        (\<lambda>a b. if jsLess (\<lambda>s. None) (getProp a ''name'') (getProp b ''name'') then - 1 else 1))
     (\<lambda>a b. if jsLess (\<lambda>s. None) (getProp a ''name'') (getProp b ''name'') then - 1 else 1) =
     [[(''name'', String ''a''), (''id'', Number 1)], [(''name'', String ''a''), (''id'', Number 2)]]"
proof -
  have a: "stableSort [[(''name'', String ''a''), (''id'', Number 1)], [(''name'', String ''a''), (''id'', Number 2)]]
     (\<lambda>a b. if jsLess (\<lambda>s. None) (getProp a ''name'') (getProp b ''name'') then - 1 else 1) =
     [[(''name'', String ''a''), (''id'', Number 2)], [(''name'', String ''a''), (''id'', Number 1)]]"
    by (simp add: stableSort_def stabilizedThis_def arraySort_def stabilizedComparator_def
        jsLess_def toPrimitive_def getProp_def)
  show ?thesis unfolding a
    by (simp add: stableSort_def stabilizedThis_def arraySort_def stabilizedComparator_def
        jsLess_def toPrimitive_def getProp_def)
qed

text \<open>
  C7, as amended. The comparator returns -1, 0 or 1 for every pair of records. It puts no
  sentinel in place of a missing sort field: the result is 0 when the field of one of the
  records is missing. The enrichment of the flights puts a sentinel in place of
  a missing pilot name, drone name, location name and duration, so that on enriched flights
  every sortable column holds a string or a number and the comparator of the column is a
  consistent comparison function.
\<close>

theorem comparator_never_fails:
  "getComparator s ord col a b \<in> {- 1, 0, 1} \<and>
   (getProp a col = Undefined \<or> getProp b col = Undefined \<longrightarrow> getComparator s ord col a b = 0) \<and>
   (pilot f = None \<longrightarrow> getProp (sortable f) ''pilot_name'' = String ''N/A'') \<and>
   (drone f = None \<longrightarrow> getProp (sortable f) ''drone_name'' = String ''N/A'') \<and>
   (flight_location f = None \<longrightarrow> getProp (sortable f) ''location_name'' = String ''ZZZ'') \<and>
   (duration f = None \<longrightarrow> getProp (sortable f) ''duration'' = Number 0) \<and>
   (col \<in> set sortableColumns \<longrightarrow>
      ((\<exists>v. getProp (sortable f) col = String v) \<or> (\<exists>v. getProp (sortable f) col = Number v)) \<and>
      consistentComparator (getComparator s ord col) (range sortable))"
proof (intro conjI impI)
  show "getComparator s ord col a b \<in> {- 1, 0, 1}" by (rule getComparator_range)
next
  assume "getProp a col = Undefined \<or> getProp b col = Undefined"
  then show "getComparator s ord col a b = 0" by (rule getComparator_Undefined)
next
  assume "col \<in> set sortableColumns"
  then show "consistentComparator (getComparator s ord col) (range sortable)"
    by (rule consistent_sortable_column)
next
  assume "col \<in> set sortableColumns"
  then show "(\<exists>v. getProp (sortable f) col = String v) \<or> (\<exists>v. getProp (sortable f) col = Number v)"
    by (rule sortable_column_defined)
qed (simp_all add: sortable_columns orString_def orZero_def)

theorem comparator_never_fails_witness:
  "pilot (exampleFlight 1 None\<lparr>pilot := None\<rparr>) = None \<and>
   flight_location (exampleFlight 1 None\<lparr>pilot := None\<rparr>) = None \<and>
   duration (exampleFlight 1 None\<lparr>pilot := None\<rparr>) = None \<and>
   ''location_name'' \<in> set sortableColumns \<and>
   getProp (sortable (exampleFlight 1 None\<lparr>pilot := None\<rparr>)) ''pilot_name'' = String ''N/A'' \<and>
   getProp (sortable (exampleFlight 1 None\<lparr>pilot := None\<rparr>)) ''location_name'' = String ''ZZZ'' \<and>
   getProp (sortable (exampleFlight 1 None\<lparr>pilot := None\<rparr>)) ''duration'' = Number 0 \<and>
   getComparator (\<lambda>s. None) asc ''location_name''
     (sortable (exampleFlight 1 None\<lparr>pilot := None\<rparr>))
     (sortable (exampleFlight 2 (Some (exampleLocation ''Alpha'')))) = 1 \<and>
   consistentComparator (getComparator (\<lambda>s. None) asc ''location_name'') (range sortable)"
proof -
  let ?f = "exampleFlight 1 None\<lparr>pilot := None\<rparr>"
  let ?g = "exampleFlight 2 (Some (exampleLocation ''Alpha''))"
  note t = comparator_never_fails [of "\<lambda>s. None" asc "''location_name''" "sortable ?f" "sortable ?g" ?f]
  have h: "pilot ?f = None" "flight_location ?f = None" "duration ?f = None"
    by (simp_all add: exampleFlight_def)
  have m: "''location_name'' \<in> set sortableColumns" by (simp add: sortableColumns_def)
  have c: "getComparator (\<lambda>s. None) asc ''location_name'' (sortable ?f) (sortable ?g) = 1"
    by (simp add: getComparator_def descendingComparator_String [OF sortable_columns(3) sortable_columns(3)]
        exampleFlight_def exampleLocation_def orString_def)
  from t h m c show ?thesis by blast
qed

text \<open>
  A missing field is not compared as the sentinel 0 or as the empty string: it ties with 1
  where 0 is less than 1, and with abc where the empty string is less than abc. It ties
  with 1 and with 2 although 1 is less than 2, so the comparator is not consistent on
  records of which one lacks the field.
\<close>

theorem missing_field_is_no_sentinel_counterexample:
  "getComparator (\<lambda>s. None) asc ''k'' [] [(''k'', Number 1)] = 0 \<and>
   getComparator (\<lambda>s. None) asc ''k'' [(''k'', Number 0)] [(''k'', Number 1)] = - 1 \<and>
   getComparator (\<lambda>s. None) asc ''k'' [] [(''k'', String ''abc'')] = 0 \<and>
   getComparator (\<lambda>s. None) asc ''k'' [(''k'', String [])] [(''k'', String ''abc'')] = - 1 \<and>
   getComparator (\<lambda>s. None) asc ''k'' [(''k'', Number 1)] [] = 0 \<and>
   getComparator (\<lambda>s. None) asc ''k'' [] [(''k'', Number 2)] = 0 \<and>
   getComparator (\<lambda>s. None) asc ''k'' [(''k'', Number 1)] [(''k'', Number 2)] = - 1 \<and>
   \<not> consistentComparator (getComparator (\<lambda>s. None) asc ''k'')
       (set [[(''k'', Number 1)], [], [(''k'', Number 2)]])"
proof -
  let ?cmp = "getComparator (\<lambda>s. None) asc ''k''"
  have c: "?cmp [] [(''k'', Number 1)] = 0" "?cmp [(''k'', Number 0)] [(''k'', Number 1)] = - 1"
    "?cmp [] [(''k'', String ''abc'')] = 0" "?cmp [(''k'', String [])] [(''k'', String ''abc'')] = - 1"
    "?cmp [(''k'', Number 1)] [] = 0" "?cmp [] [(''k'', Number 2)] = 0"
    "?cmp [(''k'', Number 1)] [(''k'', Number 2)] = - 1"
    by (simp_all add: getComparator_def descendingComparator_def jsLess_def toPrimitive_def
        toNumber_def getProp_def)
  have "\<not> consistentComparator ?cmp (set [[(''k'', Number 1)], [], [(''k'', Number 2)]])"
  proof
    assume "consistentComparator ?cmp (set [[(''k'', Number 1)], [], [(''k'', Number 2)]])"
    then have "?cmp [(''k'', Number 1)] [(''k'', Number 2)] = 0"
      using consistent_trans_eq [of ?cmp "set [[(''k'', Number 1)], [], [(''k'', Number 2)]]"
          "[(''k'', Number 1)]" "[]" "[(''k'', Number 2)]"] c by simp
    with c(7) show False by simp
  qed
  with c show ?thesis by simp
qed

text \<open>
  C8, at an input where it fails. A flight without a location gets the location name ZZZ,
  and ZZZ is before the name airfield in the order of strings: sorted by location name
  ascending, the flight without a location (id 1) comes before the flight at airfield
  (id 2).
\<close>

theorem missing_location_sorts_before_lowercase_name:
  "getProp (sortable (exampleFlight 1 None)) ''location_name'' = String ''ZZZ'' \<and>
   getProp (sortable (exampleFlight 2 (Some (exampleLocation ''airfield'')))) ''location_name'' =
     String ''airfield'' \<and>
   stringLess ''ZZZ'' ''airfield'' \<and>
   map (\<lambda>flight. getProp flight ''id'')
     (sortedFlights (\<lambda>s. None)
        [exampleFlight 2 (Some (exampleLocation ''airfield'')), exampleFlight 1 None]
        asc ''location_name'') = [Number 1, Number 2]"
proof -
  let ?f = "exampleFlight 1 None"
  let ?g = "exampleFlight 2 (Some (exampleLocation ''airfield''))"
  let ?cmp = "getComparator (\<lambda>s. None) asc ''location_name''"
  have l: "getProp (sortable ?f) ''location_name'' = String ''ZZZ''"
    "getProp (sortable ?g) ''location_name'' = String ''airfield''"
    by (simp_all add: sortable_columns exampleFlight_def exampleLocation_def orString_def)
  have c: "?cmp (sortable ?f) (sortable ?g) = - 1" "?cmp (sortable ?g) (sortable ?f) = 1"
    by (simp_all add: getComparator_def descendingComparator_String [OF l(1) l(2)]
        descendingComparator_String [OF l(2) l(1)])
  have i: "getProp (sortable ?f) ''id'' = Number 1" "getProp (sortable ?g) ''id'' = Number 2"
    by (simp_all add: sortable_def getProp_def exampleFlight_def)
  have "sortedFlights (\<lambda>s. None) [?g, ?f] asc ''location_name'' = [sortable ?f, sortable ?g]"
    by (simp add: sortedFlights_def stableSort_def stabilizedThis_def arraySort_def
        stabilizedComparator_def c)
  then show ?thesis using l i by simp
qed

section \<open>Properties of the table view-model\<close>

text \<open>
  C1, at an input where it fails. A change of a filter leaves the page index as it is, and
  a change of the page size sets it to 0: on page index 3 with 25 rows per page, after a
  change of the drone filter the page index is 3 and the next request skips 75 records.
\<close>

theorem filter_change_keeps_page:
  "page (handleFilterInputChange s name value) = page s \<and>
   page (handleFilterSelectChange s name value) = page s \<and>
   page (handleChangeRowsPerPage s value) = 0 \<and>
   page (handleFilterSelectChange (handleChangePage (initialState None None) 3) ''droneId'' ''7'') = 3 \<and>
   fetchFlights_skip
     (handleFilterSelectChange (handleChangePage (initialState None None) 3) ''droneId'' ''7'') = Some 75 \<and>
   fetchFlights_skip (handleChangeRowsPerPage (handleChangePage (initialState None None) 3) ''50'') = Some 0"
  by (simp add: handleFilterSelectChange_def handleFilterInputChange_def handleChangePage_def
      initialState_def fetchFlights_skip_def handleChangeRowsPerPage_def parseInt10_def
      isWhiteSpace_def isDigit_def digitsValue_def)

end
